theory Spec2Isabelle
  imports Main "HOL-Library.Sublist" "HOL-Library.Multiset" "HOL-Library.Char_ord" "HOL-Library.List_Lexorder"
begin

section \<open>The persistent store of dd\_library\_autopilot.py\<close>

text \<open>
  The SQLite connection \<^verbatim>\<open>con\<close> is modelled as a record of its four tables, each a list
  of rows in insertion order, together with the clock that \<^verbatim>\<open>now_utc_iso()\<close> and
  \<^verbatim>\<open>time.time()\<close> read. Instants are natural numbers (abstract ticks); the clock moves
  only when the program sleeps. Statements are executed as total functions: an I/O failure
  of the store itself is outside the model, and \<^verbatim>\<open>con.commit()\<close> has no effect of its own
  (no crash between statements is modelled). Logging is omitted.
\<close>

type_synonym instant = nat

record post_row =
  p_id :: string
  p_subreddit :: string
  p_created_utc :: int
  p_created_iso :: int
  p_title :: "string option"
  p_selftext :: "string option"
  p_score :: int
  p_num_comments :: int
  p_permalink :: string
  p_url :: "string option"
  p_link_flair_text :: "string option"
  p_author :: "string option"
  p_retrieved_at_utc :: instant

record link_row =
  l_post_id :: string
  l_url :: string
  l_first_seen_utc :: instant

record queue_row =
  q_key :: string
  q_url :: string
  q_depth :: int
  q_status :: string
  q_last_error :: "string option"
  q_is_hub :: int
  q_max_comment_depth :: int
  q_added_at_utc :: instant
  q_updated_at_utc :: instant

record run_row =
  r_run_id :: string
  r_started_at_utc :: instant
  r_ended_at_utc :: "instant option"
  r_notes :: string
  r_posts_inserted :: int
  r_hubs_queued :: int
  r_queue_done :: int
  r_errors :: int

record con =
  posts_tbl :: "post_row list"
  links_tbl :: "link_row list"
  crawl_queue_tbl :: "queue_row list"
  runs_tbl :: "run_row list"
  clock :: instant

definition MAX_CRAWL_DEPTH :: int where "MAX_CRAWL_DEPTH = 3"
definition MAX_QUEUE_BATCH :: nat where "MAX_QUEUE_BATCH = 50"
definition STOP_DUP_STREAK :: int where "STOP_DUP_STREAK = 2500"
definition HUB_TOP_LEVEL_COMMENTS :: nat where "HUB_TOP_LEVEL_COMMENTS = 75"
definition HUB_REPLY_DEPTH :: int where "HUB_REPLY_DEPTH = 1"
definition HUB_MAX_REPLIES_PER_TOP :: nat where "HUB_MAX_REPLIES_PER_TOP = 20"

text \<open>\<^verbatim>\<open>apply_schema\<close> on a fresh database file: four empty tables.\<close>

definition apply_schema :: "instant \<Rightarrow> con" where
  "apply_schema t = \<lparr>posts_tbl = [], links_tbl = [], crawl_queue_tbl = [], runs_tbl = [], clock = t\<rparr>"

definition now_utc_iso :: "con \<Rightarrow> instant" where
  "now_utc_iso c = clock c"

text \<open>
  \<^verbatim>\<open>INSERT OR IGNORE INTO posts\<close>: the row is skipped when its primary key \<^verbatim>\<open>id\<close> is
  already present; \<^verbatim>\<open>cur.rowcount == 1\<close> tells whether it was inserted.
\<close>

definition insert_post :: "con \<Rightarrow> post_row \<Rightarrow> con \<times> bool" where
  "insert_post c row =
     (if p_id row \<in> set (map p_id (posts_tbl c)) then (c, False)
      else (c\<lparr>posts_tbl := posts_tbl c @ [row]\<rparr>, True))"

text \<open>\<^verbatim>\<open>INSERT OR IGNORE INTO links\<close>, primary key \<^verbatim>\<open>(post_id, url)\<close>.\<close>

definition upsert_link :: "con \<Rightarrow> string \<Rightarrow> string \<Rightarrow> con" where
  "upsert_link c post_id url =
     (if (post_id, url) \<in> set (map (\<lambda>l. (l_post_id l, l_url l)) (links_tbl c)) then c
      else c\<lparr>links_tbl := links_tbl c @
             [\<lparr>l_post_id = post_id, l_url = url, l_first_seen_utc = now_utc_iso c\<rparr>]\<rparr>)"

text \<open>
  \<^verbatim>\<open>INSERT OR IGNORE INTO crawl_queue\<close>, primary key \<^verbatim>\<open>key\<close>; a new row has status
  \<^verbatim>\<open>'queued'\<close> and no \<^verbatim>\<open>last_error\<close>.
\<close>

definition queue_add :: "con \<Rightarrow> string \<Rightarrow> string \<Rightarrow> int \<Rightarrow> int \<Rightarrow> int \<Rightarrow> con" where
  "queue_add c key url depth is_hub max_comment_depth =
     (if key \<in> set (map q_key (crawl_queue_tbl c)) then c
      else c\<lparr>crawl_queue_tbl := crawl_queue_tbl c @
             [\<lparr>q_key = key, q_url = url, q_depth = depth, q_status = ''queued'',
               q_last_error = None, q_is_hub = is_hub, q_max_comment_depth = max_comment_depth,
               q_added_at_utc = now_utc_iso c, q_updated_at_utc = now_utc_iso c\<rparr>]\<rparr>)"

text \<open>\<^verbatim>\<open>UPDATE crawl_queue SET status=?, last_error=?, updated_at_utc=? WHERE key=?\<close>\<close>

definition queue_mark :: "con \<Rightarrow> string \<Rightarrow> string \<Rightarrow> string option \<Rightarrow> con" where
  "queue_mark c key status err =
     c\<lparr>crawl_queue_tbl :=
         map (\<lambda>r. if q_key r = key
                   then r\<lparr>q_status := status, q_last_error := err, q_updated_at_utc := now_utc_iso c\<rparr>
                   else r)
             (crawl_queue_tbl c)\<rparr>"

text \<open>
  \<^verbatim>\<open>SELECT key, url, depth, is_hub, max_comment_depth FROM crawl_queue WHERE status='queued'
  ORDER BY added_at_utc ASC LIMIT ?\<close>. Rows added at the same instant come out in insertion
  order (the sort is stable).
\<close>

type_synonym queue_item = "string \<times> string \<times> int \<times> int \<times> int"

definition item_of :: "queue_row \<Rightarrow> queue_item" where
  "item_of r = (q_key r, q_url r, q_depth r, q_is_hub r, q_max_comment_depth r)"

definition queue_pop_batch :: "con \<Rightarrow> nat \<Rightarrow> queue_item list" where
  "queue_pop_batch c batch_size =
     take batch_size
       (map item_of
          (sort_key q_added_at_utc (filter (\<lambda>r. q_status r = ''queued'') (crawl_queue_tbl c))))"

text \<open>\<^verbatim>\<open>UPDATE crawl_queue SET status='queued', updated_at_utc=? WHERE is_hub=1\<close>\<close>

definition queue_reset_hubs :: "con \<Rightarrow> con" where
  "queue_reset_hubs c =
     c\<lparr>crawl_queue_tbl :=
         map (\<lambda>r. if q_is_hub r = 1
                   then r\<lparr>q_status := ''queued'', q_updated_at_utc := now_utc_iso c\<rparr>
                   else r)
             (crawl_queue_tbl c)\<rparr>"

section \<open>URL extraction, classification and normalisation\<close>

text \<open>
  A Python \<^verbatim>\<open>str\<close> is modelled as a \<^typ>\<open>string\<close> whose characters are the code points
  below 256. \<^verbatim>\<open>p in s\<close> is \<^const>\<open>sublist\<close>, \<^verbatim>\<open>s.startswith(p)\<close> is \<^const>\<open>prefix\<close>.
  A raised exception is a value \<open>Exn msg\<close>, with \<open>msg\<close> what \<^verbatim>\<open>str(e)\<close> gives.
\<close>

datatype exn = Exn string

fun exn_str :: "exn \<Rightarrow> string" where
  "exn_str (Exn m) = m"

text \<open>The characters below 256 for which \<^verbatim>\<open>str.isspace\<close> holds (also the regex class \<^verbatim>\<open>\s\<close>).\<close>

definition py_isspace :: "char \<Rightarrow> bool" where
  "py_isspace c = (of_char c \<in> {9, 10, 11, 12, 13, 28, 29, 30, 31, 32, 133, 160 :: nat})"

definition strip :: "string \<Rightarrow> string" where
  "strip s = rev (dropWhile py_isspace (rev (dropWhile py_isspace s)))"

definition rstrip_chars :: "string \<Rightarrow> string \<Rightarrow> string" where
  "rstrip_chars cs s = rev (dropWhile (\<lambda>c. c \<in> set cs) (rev s))"

text \<open>\<^verbatim>\<open>s.replace(old, new)\<close>: the occurrences of \<open>old\<close> are replaced from left to right,
  without overlap; an empty \<open>old\<close> matches before every character and at the end.\<close>

function replace :: "string \<Rightarrow> string \<Rightarrow> string \<Rightarrow> string" where
  "replace old new s =
     (if old = [] then new @ concat (map (\<lambda>c. c # new) s)
      else if prefix old s then new @ replace old new (drop (length old) s)
      else (case s of [] \<Rightarrow> [] | c # cs \<Rightarrow> c # replace old new cs))"
  by pat_completeness auto
termination
  by (relation "measure (\<lambda>(old, new, s). length s)") (auto simp: prefix_def)

declare replace.simps [simp del]

text \<open>Matching under \<^verbatim>\<open>re.IGNORECASE\<close>: the subject is lowered, the patterns are lower case.\<close>

definition ascii_lower :: "char \<Rightarrow> char" where
  "ascii_lower c =
     (if 65 \<le> (of_char c :: nat) \<and> (of_char c :: nat) \<le> 90 then char_of (of_char c + 32 :: nat) else c)"

definition iprefix :: "string \<Rightarrow> string \<Rightarrow> bool" where
  "iprefix p s = prefix p (map ascii_lower s)"

text \<open>
  \<^verbatim>\<open>URL_RE = re.compile(r"(https?://[^\s)>\]]+)", re.IGNORECASE)\<close>: \<open>url_match_at s\<close> is the
  match of the pattern at the start of \<open>s\<close>, \<open>finditer_urls\<close> the matches that
  \<^verbatim>\<open>URL_RE.finditer\<close> yields, from left to right, without overlap.
\<close>

definition url_char :: "char \<Rightarrow> bool" where
  "url_char c = (\<not> py_isspace c \<and> c \<noteq> CHR '')'' \<and> c \<noteq> CHR ''>'' \<and> c \<noteq> CHR '']'')"

definition url_match_at :: "string \<Rightarrow> string option" where
  "url_match_at s =
     (let n = (if iprefix ''https://'' s then 8 else if iprefix ''http://'' s then 7 else 0);
          body = takeWhile url_char (drop n s)
      in if n = 0 \<or> body = [] then None else Some (take n s @ body))"

function finditer_urls :: "string \<Rightarrow> string list" where
  "finditer_urls s =
     (if s = [] then []
      else (case url_match_at s of
              Some m \<Rightarrow> m # finditer_urls (drop (length m) s)
            | None \<Rightarrow> finditer_urls (tl s)))"
  by pat_completeness auto
termination
  by (relation "measure length")
     (auto simp: url_match_at_def Let_def split: if_splits intro: diff_less)

declare finditer_urls.simps [simp del]

text \<open>
  \<^verbatim>\<open>extract_urls\<close> returns the list of a set: the matches without duplicates, in an order
  Python does not fix (here: first occurrence). Every caller sorts or collects into a set.
\<close>

definition extract_urls :: "string \<Rightarrow> string list" where
  "extract_urls text =
     (if text = [] then [] else remdups (map (rstrip_chars ''.,;!'') (finditer_urls text)))"

text \<open>
  \<^verbatim>\<open>urllib.parse.urlparse\<close> is library code: it is a parameter of the model, a function
  that either raises or gives the components the program reads.
\<close>

record parse_result =
  netloc :: string
  path :: string

type_synonym urlparse = "string \<Rightarrow> exn + parse_result"

text \<open>The \<^verbatim>\<open>except Exception: return False\<close> of the source is the \<open>Inl\<close> branch.\<close>

definition is_reddit_submission_url :: "urlparse \<Rightarrow> string \<Rightarrow> bool" where
  "is_reddit_submission_url urlparse u =
     (case urlparse u of
        Inl e \<Rightarrow> False
      | Inr p \<Rightarrow>
          (let host_ok = (sublist ''reddit.com'' (netloc p) \<or> sublist ''redd.it'' (netloc p));
               path_ok = (sublist ''/comments/'' (path p) \<or> sublist ''redd.it/'' (path p))
           in host_ok \<and> path_ok))"

definition normalize_reddit_url :: "string \<Rightarrow> string" where
  "normalize_reddit_url u0 =
     (let u = strip u0;
          u = (if prefix ''http://'' u then ''https://'' @ drop (length ''http://'') u else u);
          u = (if sublist ''old.reddit.com'' u
               then replace ''old.reddit.com'' ''www.reddit.com'' u else u);
          u = (if sublist ''reddit.com'' u \<and> \<not> prefix ''https://'' u then ''https://'' @ u else u)
      in u)"

text \<open>
  \<^verbatim>\<open>re.search(marker + r"([a-z0-9]{5,8})", u, re.IGNORECASE)\<close> for a literal lower-case
  \<open>marker\<close>: the leftmost position where the marker is followed by at least five
  characters of the class; the group holds at most eight of them.
\<close>

definition id_char :: "char \<Rightarrow> bool" where
  "id_char c =
     (let n = (of_char (ascii_lower c) :: nat) in (97 \<le> n \<and> n \<le> 122) \<or> (48 \<le> n \<and> n \<le> 57))"

definition id_match_at :: "string \<Rightarrow> string \<Rightarrow> string option" where
  "id_match_at marker s =
     (if iprefix marker s
      then (let run = takeWhile id_char (drop (length marker) s)
            in if 5 \<le> length run then Some (take 8 run) else None)
      else None)"

fun search_id :: "string \<Rightarrow> string \<Rightarrow> string option" where
  "search_id marker [] = id_match_at marker []"
| "search_id marker (c # cs) =
     (case id_match_at marker (c # cs) of
        Some g \<Rightarrow> Some g
      | None \<Rightarrow> search_id marker cs)"

definition submission_id_from_url :: "string \<Rightarrow> string option" where
  "submission_id_from_url u =
     (case search_id ''/comments/'' u of
        Some g \<Rightarrow> Some g
      | None \<Rightarrow>
          (case search_id ''redd.it/'' u of
             Some g \<Rightarrow> Some g
           | None \<Rightarrow> None))"

text \<open>\<^verbatim>\<open>re.fullmatch(r"[a-z0-9]{5,8}", key)\<close>, case sensitive.\<close>

definition fullmatch_id :: "string \<Rightarrow> bool" where
  "fullmatch_id key =
     (5 \<le> length key \<and> length key \<le> 8 \<and>
      list_all (\<lambda>c. let n = (of_char c :: nat) in (97 \<le> n \<and> n \<le> 122) \<or> (48 \<le> n \<and> n \<le> 57)) key)"

text \<open>A string that \<^verbatim>\<open>strip\<close> leaves as it is.\<close>

definition stripped :: "string \<Rightarrow> bool" where
  "stripped s = (s = [] \<or> (\<not> py_isspace (hd s) \<and> \<not> py_isspace (last s)))"

section \<open>The remote content source\<close>

text \<open>
  What the program reads of a PRAW submission and of its comments. Fetching the comment
  forest (\<^verbatim>\<open>replace_more\<close>) may raise, for the submission and for the replies of each
  top-level comment. \<^verbatim>\<open>c_body\<close> is \<^verbatim>\<open>getattr(comment, "body", "")\<close>.
\<close>

datatype comment = Comment (c_body: string) (c_replies: "exn + string list")

record submission =
  s_id :: string
  s_subreddit :: string
  s_created_utc :: int
  s_title :: "string option"
  s_selftext :: "string option"
  s_score :: int
  s_num_comments :: int
  s_permalink :: string
  s_url :: "string option"
  s_link_flair_text :: "string option"
  s_author :: "string option"
  s_comments :: "exn + comment list"

text \<open>
  The Reddit client: a search (query, sort order, limit) yields a stream of submissions, an
  \<open>Inl\<close> element being the point where the iteration raises; a submission is fetched by
  id or by URL, and the fetch may raise.
\<close>

record reddit =
  rd_search :: "string \<Rightarrow> string \<Rightarrow> nat option \<Rightarrow> (exn + submission) list"
  rd_submission_id :: "string \<Rightarrow> exn + submission"
  rd_submission_url :: "string \<Rightarrow> exn + submission"

text \<open>The book emoji U+1F4DA of the flair labels is written as its four UTF-8 bytes; the
  labels are only handed to the remote search.\<close>

definition DD_FLAIRS :: "string list" where
  "DD_FLAIRS =
     [[CHR 0xF0, CHR 0x9F, CHR 0x93, CHR 0x9A] @ '' Due Diligence'',
      [CHR 0xF0, CHR 0x9F, CHR 0x93, CHR 0x9A] @ '' Possible DD'']"

definition HUB_QUERIES :: "string list" where
  \<open>HUB_QUERIES =
     [''("DD" AND ("library" OR "compilation" OR "directory" OR "index"))'',
      ''"A Comprehensive Compilation of All Due Diligence"'',
      ''"Daily Directory" ("DD Library" OR "Library of Due Diligence")'',
      ''"Due Diligence" "LIBRARY"'',
      ''"library of DD"'',
      ''"gme.fyi"'',
      ''"fliphtml5" "bookcase"'']\<close>

section \<open>Time budget\<close>

definition time_sleep :: "nat \<Rightarrow> con \<Rightarrow> con" where
  "time_sleep s c = c\<lparr>clock := clock c + s\<rparr>"

definition deadline_reached :: "instant option \<Rightarrow> con \<Rightarrow> bool" where
  "deadline_reached deadline_ts c = (case deadline_ts of None \<Rightarrow> False | Some t \<Rightarrow> t \<le> clock c)"

section \<open>Storing a submission and discovering its links\<close>

text \<open>\<^verbatim>\<open>x or ""\<close>\<close>

definition or_empty :: "string option \<Rightarrow> string" where
  "or_empty x = (case x of None \<Rightarrow> [] | Some s \<Rightarrow> s)"

text \<open>The body of the loop \<^verbatim>\<open>for u in urls\<close> of \<^verbatim>\<open>store_submission_and_discover\<close>.\<close>

definition discover_link :: "urlparse \<Rightarrow> string \<Rightarrow> int \<Rightarrow> string \<Rightarrow> con \<Rightarrow> con" where
  "discover_link urlparse post_id depth u c0 =
     (let c = upsert_link c0 post_id u
      in if depth < MAX_CRAWL_DEPTH \<and> is_reddit_submission_url urlparse u
         then (let nu = normalize_reddit_url u;
                   sid = submission_id_from_url nu;
                   key = (case sid of Some i \<Rightarrow> i | None \<Rightarrow> nu)
               in queue_add c key nu (depth + 1) 0 0)
         else c)"

definition store_submission_and_discover :: "urlparse \<Rightarrow> con \<Rightarrow> submission \<Rightarrow> int \<Rightarrow> con \<times> bool" where
  "store_submission_and_discover urlparse c0 sub depth =
     (let post_id = s_id sub;
          created_utc = s_created_utc sub;
          permalink = ''https://www.reddit.com'' @ s_permalink sub;
          row = \<lparr>p_id = post_id, p_subreddit = s_subreddit sub, p_created_utc = created_utc,
                 p_created_iso = created_utc, p_title = s_title sub, p_selftext = s_selftext sub,
                 p_score = s_score sub, p_num_comments = s_num_comments sub,
                 p_permalink = permalink, p_url = s_url sub,
                 p_link_flair_text = s_link_flair_text sub, p_author = s_author sub,
                 p_retrieved_at_utc = now_utc_iso c0\<rparr>;
          (c, inserted) = insert_post c0 row;
          urls = sort (remdups (extract_urls (or_empty (s_title sub)) @
                                extract_urls (or_empty (s_selftext sub)) @
                                extract_urls (or_empty (s_url sub))))
      in (fold (discover_link urlparse post_id depth) urls c, inserted))"

section \<open>Links in the best comments of a hub\<close>

definition comment_links :: "urlparse \<Rightarrow> string \<Rightarrow> string list" where
  "comment_links urlparse body =
     map normalize_reddit_url (filter (is_reddit_submission_url urlparse) (extract_urls body))"

definition extract_reddit_links_from_best_comments ::
  "urlparse \<Rightarrow> submission \<Rightarrow> nat \<Rightarrow> int \<Rightarrow> nat \<Rightarrow> exn + string list" where
  "extract_reddit_links_from_best_comments urlparse sub top_n reply_depth max_replies_per_top =
     (case s_comments sub of
        Inl e \<Rightarrow> Inl e
      | Inr comments \<Rightarrow>
          Inr (sort (remdups (concat (map
            (\<lambda>top. comment_links urlparse (c_body top) @
               (if 1 \<le> reply_depth
                then (case c_replies top of
                        Inl e \<Rightarrow> []
                      | Inr replies \<Rightarrow>
                          concat (map (comment_links urlparse) (take max_replies_per_top replies)))
                else []))
            (take top_n comments))))))"

section \<open>Phase A: flair scan\<close>

datatype loop_exit = Exhausted | Broke | Returned | Raised exn

text \<open>
  The loop \<^verbatim>\<open>for submission in sub.search(query, ...)\<close> of \<^verbatim>\<open>ingest_dd_flair_posts\<close>, for one
  flair label, over the result stream; the state carries \<^verbatim>\<open>seen\<close>, \<^verbatim>\<open>inserted_count\<close> and
  \<^verbatim>\<open>dup_streak\<close>. The exit tells how the loop ended: stream exhausted, \<^verbatim>\<open>break\<close> on the
  duplicate streak, \<^verbatim>\<open>return\<close> on the deadline, or an exception.
\<close>

fun flair_search_loop ::
  "urlparse \<Rightarrow> nat \<Rightarrow> instant option \<Rightarrow> (exn + submission) list \<Rightarrow> con \<Rightarrow> int \<Rightarrow> int \<Rightarrow> int
     \<Rightarrow> con \<times> int \<times> int \<times> int \<times> loop_exit" where
  "flair_search_loop urlparse sleep_s deadline_ts [] c seen inserted_count dup_streak =
     (c, seen, inserted_count, dup_streak, Exhausted)"
| "flair_search_loop urlparse sleep_s deadline_ts (Inl e # rest) c seen inserted_count dup_streak =
     (c, seen, inserted_count, dup_streak, Raised e)"
| "flair_search_loop urlparse sleep_s deadline_ts (Inr submission # rest) c seen inserted_count dup_streak =
     (if deadline_reached deadline_ts c then (c, seen, inserted_count, dup_streak, Returned)
      else (let seen' = seen + 1;
                (c', inserted) = store_submission_and_discover urlparse c submission 0;
                inserted_count' = (if inserted then inserted_count + 1 else inserted_count);
                dup_streak' = (if inserted then 0 else dup_streak + 1)
            in if STOP_DUP_STREAK \<le> dup_streak'
               then (c', seen', inserted_count', dup_streak', Broke)
               else flair_search_loop urlparse sleep_s deadline_ts rest (time_sleep sleep_s c')
                      seen' inserted_count' dup_streak'))"

text \<open>The loop \<^verbatim>\<open>for flair in DD_FLAIRS\<close>; the result is the state and either the exception
  that escaped or the returned \<^verbatim>\<open>inserted_count\<close>.\<close>

fun ingest_flairs ::
  "urlparse \<Rightarrow> reddit \<Rightarrow> nat \<Rightarrow> instant option \<Rightarrow> string list \<Rightarrow> con \<Rightarrow> int \<Rightarrow> int
     \<Rightarrow> con \<times> (exn + int)" where
  "ingest_flairs urlparse rd sleep_s deadline_ts [] c seen inserted_count = (c, Inr inserted_count)"
| "ingest_flairs urlparse rd sleep_s deadline_ts (flair # rest) c seen inserted_count =
     (if deadline_reached deadline_ts c then (c, Inr inserted_count)
      else (case flair_search_loop urlparse sleep_s deadline_ts
                   (rd_search rd (''flair:'' @ [CHR 0x22] @ flair @ [CHR 0x22]) ''new'' None)
                   c seen inserted_count 0 of
              (c', seen', inserted_count', dup_streak', ex) \<Rightarrow>
                (case ex of
                   Raised e \<Rightarrow> (c', Inl e)
                 | Returned \<Rightarrow> (c', Inr inserted_count')
                 | Broke \<Rightarrow> ingest_flairs urlparse rd sleep_s deadline_ts rest c' seen' inserted_count'
                 | Exhausted \<Rightarrow> ingest_flairs urlparse rd sleep_s deadline_ts rest c' seen' inserted_count')))"

definition ingest_dd_flair_posts ::
  "urlparse \<Rightarrow> reddit \<Rightarrow> con \<Rightarrow> nat \<Rightarrow> instant option \<Rightarrow> con \<times> (exn + int)" where
  "ingest_dd_flair_posts urlparse rd c sleep_s deadline_ts =
     ingest_flairs urlparse rd sleep_s deadline_ts DD_FLAIRS c 0 0"

section \<open>Phase B: hub discovery\<close>

fun hub_search_loop ::
  "nat \<Rightarrow> instant option \<Rightarrow> (exn + submission) list \<Rightarrow> con \<Rightarrow> int \<Rightarrow> con \<times> int \<times> loop_exit" where
  "hub_search_loop sleep_s deadline_ts [] c added = (c, added, Exhausted)"
| "hub_search_loop sleep_s deadline_ts (Inl e # rest) c added = (c, added, Raised e)"
| "hub_search_loop sleep_s deadline_ts (Inr submission # rest) c added =
     (if deadline_reached deadline_ts c then (c, added, Returned)
      else (let permalink = ''https://www.reddit.com'' @ s_permalink submission;
                c' = queue_add c (s_id submission) permalink 0 1 HUB_REPLY_DEPTH
            in hub_search_loop sleep_s deadline_ts rest (time_sleep sleep_s c') (added + 1)))"

fun discover_hubs ::
  "reddit \<Rightarrow> nat \<Rightarrow> instant option \<Rightarrow> string list \<Rightarrow> con \<Rightarrow> int \<Rightarrow> con \<times> (exn + int)" where
  "discover_hubs rd sleep_s deadline_ts [] c added = (c, Inr added)"
| "discover_hubs rd sleep_s deadline_ts (q # rest) c added =
     (if deadline_reached deadline_ts c then (c, Inr added)
      else (case hub_search_loop sleep_s deadline_ts (rd_search rd q ''relevance'' (Some 200)) c added of
              (c', added', ex) \<Rightarrow>
                (case ex of
                   Raised e \<Rightarrow> (c', Inl e)
                 | Returned \<Rightarrow> (c', Inr added')
                 | Broke \<Rightarrow> discover_hubs rd sleep_s deadline_ts rest c' added'
                 | Exhausted \<Rightarrow> discover_hubs rd sleep_s deadline_ts rest c' added')))"

definition discover_hub_posts ::
  "reddit \<Rightarrow> con \<Rightarrow> nat \<Rightarrow> instant option \<Rightarrow> con \<times> (exn + int)" where
  "discover_hub_posts rd c sleep_s deadline_ts = discover_hubs rd sleep_s deadline_ts HUB_QUERIES c 0"

section \<open>Phase C: queue crawl\<close>

text \<open>
  The body of the \<^verbatim>\<open>try\<close> statement for one popped item: the state where it ended and the
  exception that left it, if any. A failure of the fetch leaves the state as it was; a
  failure of the comment expansion comes after the submission was stored.
\<close>

definition crawl_item_try :: "urlparse \<Rightarrow> reddit \<Rightarrow> con \<Rightarrow> queue_item \<Rightarrow> con \<times> exn option" where
  "crawl_item_try urlparse rd c item =
     (case item of (key, url, depth, is_hub, max_comment_depth) \<Rightarrow>
        (let sid = (case submission_id_from_url url of
                      Some i \<Rightarrow> Some i
                    | None \<Rightarrow> if fullmatch_id key then Some key else None);
             fetched = (case sid of
                          Some i \<Rightarrow> rd_submission_id rd i
                        | None \<Rightarrow> rd_submission_url rd url)
         in case fetched of
              Inl e \<Rightarrow> (c, Some e)
            | Inr submission \<Rightarrow>
                (let c1 = fst (store_submission_and_discover urlparse c submission depth)
                 in if is_hub = 1 \<and> depth \<le> MAX_CRAWL_DEPTH
                    then (case extract_reddit_links_from_best_comments urlparse submission
                                 HUB_TOP_LEVEL_COMMENTS max_comment_depth HUB_MAX_REPLIES_PER_TOP of
                            Inl e \<Rightarrow> (c1, Some e)
                          | Inr best_links \<Rightarrow>
                              (queue_mark
                                 (fold (\<lambda>nu c'.
                                          queue_add c'
                                            (case submission_id_from_url nu of Some i \<Rightarrow> i | None \<Rightarrow> nu)
                                            nu (depth + 1) 0 0)
                                       best_links c1)
                                 key ''done'' None, None))
                    else (queue_mark c1 key ''done'' None, None))))"

text \<open>
  One iteration of the loop over the batch, without its deadline check and its sleep: the
  \<^verbatim>\<open>try\<close> body and, when it raised, the \<^verbatim>\<open>except\<close> branch, which marks the item \<^verbatim>\<open>error\<close>
  with \<^verbatim>\<open>str(e)[:500]\<close>. The result tells whether the item was done (\<open>True\<close>) or failed.
\<close>

definition crawl_item :: "urlparse \<Rightarrow> reddit \<Rightarrow> con \<Rightarrow> queue_item \<Rightarrow> con \<times> bool" where
  "crawl_item urlparse rd c item =
     (case crawl_item_try urlparse rd c item of
        (c', None) \<Rightarrow> (c', True)
      | (c', Some e) \<Rightarrow> (queue_mark c' (fst item) ''error'' (Some (take 500 (exn_str e))), False))"

text \<open>The loop \<^verbatim>\<open>for key, url, depth, is_hub, max_comment_depth in batch\<close>; the last component
  tells whether the deadline made the function return in the middle of the batch.\<close>

fun crawl_batch ::
  "urlparse \<Rightarrow> reddit \<Rightarrow> nat \<Rightarrow> instant option \<Rightarrow> queue_item list \<Rightarrow> con \<Rightarrow> int \<Rightarrow> int
     \<Rightarrow> con \<times> int \<times> int \<times> bool" where
  "crawl_batch urlparse rd sleep_s deadline_ts [] c done errors = (c, done, errors, False)"
| "crawl_batch urlparse rd sleep_s deadline_ts (item # rest) c done errors =
     (if deadline_reached deadline_ts c then (c, done, errors, True)
      else (let (c', ok) = crawl_item urlparse rd c item;
                done' = (if ok then done + 1 else done);
                errors' = (if ok then errors else errors + 1)
            in crawl_batch urlparse rd sleep_s deadline_ts rest (time_sleep sleep_s c') done' errors'))"

text \<open>The loop \<^verbatim>\<open>while True\<close>: a run that never leaves the loop has the value \<open>None\<close>.\<close>

partial_function (option) crawl_loop ::
  "urlparse \<Rightarrow> reddit \<Rightarrow> nat \<Rightarrow> instant option \<Rightarrow> con \<Rightarrow> int \<Rightarrow> int \<Rightarrow> (con \<times> int \<times> int) option" where
  "crawl_loop urlparse rd sleep_s deadline_ts c done errors =
     (if deadline_reached deadline_ts c then Some (c, done, errors)
      else (let batch = queue_pop_batch c MAX_QUEUE_BATCH
            in if batch = [] then Some (c, done, errors)
               else (case crawl_batch urlparse rd sleep_s deadline_ts batch c done errors of
                       (c', done', errors', returned) \<Rightarrow>
                         if returned then Some (c', done', errors')
                         else crawl_loop urlparse rd sleep_s deadline_ts c' done' errors')))"

definition crawl_queue ::
  "urlparse \<Rightarrow> reddit \<Rightarrow> con \<Rightarrow> nat \<Rightarrow> instant option \<Rightarrow> (con \<times> int \<times> int) option" where
  "crawl_queue urlparse rd c sleep_s deadline_ts = crawl_loop urlparse rd sleep_s deadline_ts c 0 0"

section \<open>Run bookkeeping and main\<close>

text \<open>
  \<^verbatim>\<open>begin_run\<close> inserts the row of the run under the id that \<^verbatim>\<open>uuid.uuid4()\<close> drew, here an
  argument; a plain \<^verbatim>\<open>INSERT\<close> raises when the id is already in the table.
\<close>

definition begin_run :: "con \<Rightarrow> string \<Rightarrow> string \<Rightarrow> exn + con" where
  "begin_run c run_id notes =
     (if run_id \<in> set (map r_run_id (runs_tbl c))
      then Inl (Exn ''UNIQUE constraint failed: runs.run_id'')
      else Inr (c\<lparr>runs_tbl := runs_tbl c @
                   [\<lparr>r_run_id = run_id, r_started_at_utc = now_utc_iso c, r_ended_at_utc = None,
                     r_notes = notes, r_posts_inserted = 0, r_hubs_queued = 0, r_queue_done = 0,
                     r_errors = 0\<rparr>]\<rparr>))"

definition update_run_stats :: "con \<Rightarrow> string \<Rightarrow> int \<Rightarrow> int \<Rightarrow> int \<Rightarrow> int \<Rightarrow> con" where
  "update_run_stats c run_id posts_inserted hubs_queued queue_done errors =
     c\<lparr>runs_tbl :=
         map (\<lambda>r. if r_run_id r = run_id
                   then r\<lparr>r_posts_inserted := posts_inserted, r_hubs_queued := hubs_queued,
                          r_queue_done := queue_done, r_errors := errors\<rparr>
                   else r)
             (runs_tbl c)\<rparr>"

definition end_run :: "con \<Rightarrow> string \<Rightarrow> con" where
  "end_run c run_id =
     c\<lparr>runs_tbl :=
         map (\<lambda>r. if r_run_id r = run_id then r\<lparr>r_ended_at_utc := Some (now_utc_iso c)\<rparr> else r)
             (runs_tbl c)\<rparr>"

text \<open>The command line: \<^verbatim>\<open>--sleep\<close>, \<^verbatim>\<open>--recrawl-hubs\<close>, \<^verbatim>\<open>--max-minutes\<close>.\<close>

record args =
  a_sleep :: nat
  a_recrawl_hubs :: bool
  a_max_minutes :: "nat option"

text \<open>The local variables of \<^verbatim>\<open>main\<close> that the exception handler reads.\<close>

record counters =
  posts_inserted :: int
  hubs_queued :: int
  queue_done :: int
  errors :: int

definition flush_counters :: "con \<Rightarrow> string \<Rightarrow> counters \<Rightarrow> con" where
  "flush_counters c run_id l =
     update_run_stats c run_id (posts_inserted l) (hubs_queued l) (queue_done l) (errors l)"

text \<open>
  The three phases as \<^verbatim>\<open>main\<close> calls them inside its \<^verbatim>\<open>try\<close> block. Each gives the state and
  the local variables at the point where it ended, and the exception if one escaped.
\<close>

definition main_flair_phase ::
  "urlparse \<Rightarrow> reddit \<Rightarrow> args \<Rightarrow> instant option \<Rightarrow> string \<Rightarrow> con \<times> counters
     \<Rightarrow> (con \<times> counters) \<times> exn option" where
  "main_flair_phase urlparse rd a deadline_ts run_id st =
     (case st of (c, l) \<Rightarrow>
        (case ingest_dd_flair_posts urlparse rd c (a_sleep a) deadline_ts of
           (c', Inl e) \<Rightarrow> ((c', l), Some e)
         | (c', Inr n) \<Rightarrow>
             (let l' = l\<lparr>posts_inserted := n\<rparr> in ((flush_counters c' run_id l', l'), None))))"

definition main_hub_phase ::
  "reddit \<Rightarrow> args \<Rightarrow> instant option \<Rightarrow> string \<Rightarrow> con \<times> counters
     \<Rightarrow> (con \<times> counters) \<times> exn option" where
  "main_hub_phase rd a deadline_ts run_id st =
     (case st of (c, l) \<Rightarrow>
        if \<not> deadline_reached deadline_ts c
        then (case discover_hub_posts rd c (a_sleep a) deadline_ts of
                (c', Inl e) \<Rightarrow> ((c', l), Some e)
              | (c', Inr n) \<Rightarrow>
                  (let l' = l\<lparr>hubs_queued := n\<rparr> in ((flush_counters c' run_id l', l'), None)))
        else ((c, l), None))"

definition main_crawl_phase ::
  "urlparse \<Rightarrow> reddit \<Rightarrow> args \<Rightarrow> instant option \<Rightarrow> string \<Rightarrow> con \<times> counters
     \<Rightarrow> (con \<times> counters) option" where
  "main_crawl_phase urlparse rd a deadline_ts run_id st =
     (case st of (c, l) \<Rightarrow>
        if \<not> deadline_reached deadline_ts c
        then (case crawl_queue urlparse rd c (a_sleep a) deadline_ts of
                None \<Rightarrow> None
              | Some (c', done, crawl_errors) \<Rightarrow>
                  (let l' = l\<lparr>queue_done := done, errors := errors l + crawl_errors\<rparr>
                   in Some (flush_counters c' run_id l', l')))
        else Some (c, l))"

text \<open>
  The \<^verbatim>\<open>try\<close> block of \<^verbatim>\<open>main\<close>: the state and the locals where it ended, with the
  exception that left it, if any. On the normal path \<^verbatim>\<open>end_run\<close> is its last statement.
\<close>

definition main_try ::
  "urlparse \<Rightarrow> reddit \<Rightarrow> args \<Rightarrow> instant option \<Rightarrow> string \<Rightarrow> con
     \<Rightarrow> ((con \<times> counters) \<times> exn option) option" where
  "main_try urlparse rd a deadline_ts run_id c0 =
     (let c = (if a_recrawl_hubs a then queue_reset_hubs c0 else c0);
          l = \<lparr>posts_inserted = 0, hubs_queued = 0, queue_done = 0, errors = 0\<rparr>
      in case main_flair_phase urlparse rd a deadline_ts run_id (c, l) of
           (st1, Some e) \<Rightarrow> Some (st1, Some e)
         | (st1, None) \<Rightarrow>
             (case main_hub_phase rd a deadline_ts run_id st1 of
                (st2, Some e) \<Rightarrow> Some (st2, Some e)
              | (st2, None) \<Rightarrow>
                  (case main_crawl_phase urlparse rd a deadline_ts run_id st2 of
                     None \<Rightarrow> None
                   | Some (c3, l3) \<Rightarrow> Some ((end_run c3 run_id, l3), None))))"

text \<open>
  \<^verbatim>\<open>main\<close>, from the database as \<^verbatim>\<open>init_db\<close> and \<^verbatim>\<open>apply_schema\<close> leave it: \<open>Inl\<close> when
  \<^verbatim>\<open>begin_run\<close> raises, before the \<^verbatim>\<open>try\<close>; otherwise the final state and the value
  returned, \<open>0\<close> from the \<^verbatim>\<open>try\<close> block and \<open>1\<close> from the handler.
\<close>

definition main :: "urlparse \<Rightarrow> reddit \<Rightarrow> args \<Rightarrow> string \<Rightarrow> con \<Rightarrow> (exn + con \<times> int) option" where
  "main urlparse rd a run_id c0 =
     (let deadline_ts = (case a_max_minutes a of
                           None \<Rightarrow> None
                         | Some m \<Rightarrow> Some (clock c0 + m * 60))
      in case begin_run c0 run_id ''DD Library Autopilot (BEST hub comments, time budget)'' of
           Inl e \<Rightarrow> Some (Inl e)
         | Inr c \<Rightarrow>
             (case main_try urlparse rd a deadline_ts run_id c of
                None \<Rightarrow> None
              | Some ((c', l), None) \<Rightarrow> Some (Inr (c', 0))
              | Some ((c', l), Some e) \<Rightarrow>
                  Some (Inr (end_run (flush_counters c' run_id (l\<lparr>errors := errors l + 1\<rparr>)) run_id, 1))))"

section \<open>Auxiliary notions for the queue table\<close>

text \<open>
  \<open>fresh_rows d h old new\<close>: the rows \<open>new\<close> are rows as \<^verbatim>\<open>queue_add\<close> inserts them, at depth
  \<open>d\<close> with hub flag \<open>h\<close>, with keys that are new to the table \<open>old\<close>.
  \<open>queue_appends d c c'\<close>: the queue table of \<open>c'\<close> is the one of \<open>c\<close> followed by such rows,
  not hubs. \<open>item_status x\<close>: the status and error text that the crawl records for an item
  whose \<^verbatim>\<open>try\<close> body ended with \<open>x\<close>.
\<close>

definition fresh_rows :: "int \<Rightarrow> int \<Rightarrow> queue_row list \<Rightarrow> queue_row list \<Rightarrow> bool" where
  "fresh_rows d h old new =
     (list_all (\<lambda>r. q_depth r = d \<and> q_is_hub r = h \<and> q_status r = ''queued'') new \<and>
      distinct (map q_key new) \<and> set (map q_key new) \<inter> set (map q_key old) = {})"

definition queue_appends :: "int \<Rightarrow> con \<Rightarrow> con \<Rightarrow> bool" where
  "queue_appends d c c' =
     (clock c' = clock c \<and>
      (\<exists>new. crawl_queue_tbl c' = crawl_queue_tbl c @ new \<and> fresh_rows d 0 (crawl_queue_tbl c) new))"

definition item_status :: "exn option \<Rightarrow> string \<times> string option" where
  "item_status x =
     (case x of None \<Rightarrow> (''done'', None) | Some e \<Rightarrow> (''error'', Some (take 500 (exn_str e))))"

section \<open>Reachable states\<close>

text \<open>
  The states of the connection that the program can produce, one statement at a time:
  from the empty tables of a fresh database, by sleeping, by the hub re-queue, by storing a
  flair-scan result at depth 0, by seeding a hub, by processing an item that is a row of the
  queue table (as the crawl does for the rows it popped), and by the bookkeeping of the run.
  The remote source may differ from step to step.
\<close>

inductive reachable :: "urlparse \<Rightarrow> con \<Rightarrow> bool" for urlparse :: urlparse where
  fresh: "reachable urlparse (apply_schema t)"
| sleep: "reachable urlparse c \<Longrightarrow> reachable urlparse (time_sleep s c)"
| reset_hubs: "reachable urlparse c \<Longrightarrow> reachable urlparse (queue_reset_hubs c)"
| flair_store:
    "reachable urlparse c \<Longrightarrow>
     reachable urlparse (fst (store_submission_and_discover urlparse c submission 0))"
| hub_seed:
    "reachable urlparse c \<Longrightarrow>
     reachable urlparse
       (queue_add c (s_id (submission :: submission))
          (''https://www.reddit.com'' @ s_permalink submission) 0 1 HUB_REPLY_DEPTH)"
| crawl:
    "reachable urlparse c \<Longrightarrow> item \<in> item_of ` set (crawl_queue_tbl c) \<Longrightarrow>
     reachable urlparse (fst (crawl_item urlparse rd c item))"
| run_begin:
    "reachable urlparse c \<Longrightarrow> begin_run c run_id notes = Inr c' \<Longrightarrow> reachable urlparse c'"
| run_stats:
    "reachable urlparse c \<Longrightarrow>
     reachable urlparse (update_run_stats c run_id n_posts n_hubs n_done n_errors)"
| run_end: "reachable urlparse c \<Longrightarrow> reachable urlparse (end_run c run_id)"

text \<open>The invariant of the queue table: depths within the bound, hubs at depth 0.\<close>

definition queue_inv :: "con \<Rightarrow> bool" where
  "queue_inv c =
     list_all (\<lambda>r. 0 \<le> q_depth r \<and> q_depth r \<le> MAX_CRAWL_DEPTH \<and> (q_is_hub r = 1 \<longrightarrow> q_depth r = 0))
       (crawl_queue_tbl c)"

section \<open>Sample data for the examples\<close>

definition sample_hub_row :: queue_row where
  "sample_hub_row =
     \<lparr>q_key = ''abc123'', q_url = ''https://www.reddit.com/r/Superstonk/comments/abc123/dd/'',
      q_depth = 0, q_status = ''done'', q_last_error = None, q_is_hub = 1,
      q_max_comment_depth = 1, q_added_at_utc = 5, q_updated_at_utc = 9\<rparr>"

definition sample_con :: con where
  "sample_con =
     \<lparr>posts_tbl = [], links_tbl = [], crawl_queue_tbl = [sample_hub_row], runs_tbl = [],
      clock = 12\<rparr>"

definition sample_post :: post_row where
  "sample_post =
     \<lparr>p_id = ''abc123'', p_subreddit = ''Superstonk'', p_created_utc = 1700000000,
      p_created_iso = 1700000000, p_title = Some ''DD library'', p_selftext = Some [],
      p_score = 10, p_num_comments = 2,
      p_permalink = ''https://www.reddit.com/r/Superstonk/comments/abc123/dd/'',
      p_url = None, p_link_flair_text = None, p_author = None, p_retrieved_at_utc = 3\<rparr>"

definition sample_submission :: submission where
  "sample_submission =
     \<lparr>s_id = ''abc123'', s_subreddit = ''Superstonk'', s_created_utc = 1700000000,
      s_title = Some ''DD library'',
      s_selftext = Some ''see https://www.reddit.com/r/Superstonk/comments/def456/more_dd/ and https://example.org/x.'',
      s_score = 10, s_num_comments = 2, s_permalink = ''/r/Superstonk/comments/abc123/dd/'',
      s_url = None, s_link_flair_text = None, s_author = None, s_comments = Inr []\<rparr>"

text \<open>A queue of three queued items and a remote source whose fetch of the second fails.\<close>

definition sample_item_row :: "string \<Rightarrow> instant \<Rightarrow> queue_row" where
  "sample_item_row k t =
     \<lparr>q_key = k, q_url = ''https://www.reddit.com/comments/'' @ k, q_depth = 1,
      q_status = ''queued'', q_last_error = None, q_is_hub = 0, q_max_comment_depth = 0,
      q_added_at_utc = t, q_updated_at_utc = t\<rparr>"

definition sample_crawl_con :: con where
  "sample_crawl_con =
     \<lparr>posts_tbl = [], links_tbl = [],
      crawl_queue_tbl = [sample_item_row ''aaaaa1'' 1, sample_item_row ''bbbbb2'' 2,
                         sample_item_row ''ccccc3'' 3],
      runs_tbl = [], clock = 12\<rparr>"

definition sample_reddit :: reddit where
  "sample_reddit =
     \<lparr>rd_search = (\<lambda>query sort limit. []),
      rd_submission_id =
        (\<lambda>i. if i = ''bbbbb2'' then Inl (Exn ''received 404 HTTP response'')
             else Inr (sample_submission\<lparr>s_id := i, s_title := None,
                                         s_selftext := Some ''https://www.reddit.com/comments/def456''\<rparr>)),
      rd_submission_url = (\<lambda>u. Inl (Exn ''Invalid URL''))\<rparr>"

text \<open>A hub post with one best comment and one reply, each linking a submission.\<close>

definition sample_hub_submission :: submission where
  "sample_hub_submission =
     sample_submission
       \<lparr>s_title := None,
        s_selftext := Some ''https://www.reddit.com/comments/def456'',
        s_comments :=
          Inr [Comment ''https://www.reddit.com/comments/ghi789''
                 (Inr [''https://www.reddit.com/comments/jkl012''])]\<rparr>"

definition sample_hub_reddit :: reddit where
  "sample_hub_reddit =
     \<lparr>rd_search = (\<lambda>query sort limit. []),
      rd_submission_id = (\<lambda>i. Inr sample_hub_submission),
      rd_submission_url = (\<lambda>u. Inl (Exn ''Invalid URL''))\<rparr>"

definition sample_seeded_con :: con where
  "sample_seeded_con =
     queue_add (apply_schema 0) (s_id sample_hub_submission)
       (''https://www.reddit.com'' @ s_permalink sample_hub_submission) 0 1 HUB_REPLY_DEPTH"

text \<open>
  A stand-in for \<^verbatim>\<open>urlparse\<close>, used only to run examples: it raises on a bracket, as
  the library does on a malformed IPv6 host, and otherwise splits an \<^verbatim>\<open>https://\<close> URL at
  the first slash after the authority.
\<close>

definition sample_urlparse :: urlparse where
  "sample_urlparse u =
     (if CHR ''['' \<in> set u then Inl (Exn ''Invalid IPv6 URL'')
      else if prefix ''https://'' u
      then Inr \<lparr>netloc = takeWhile (\<lambda>c. c \<noteq> CHR ''/'') (drop 8 u),
                path = dropWhile (\<lambda>c. c \<noteq> CHR ''/'') (drop 8 u)\<rparr>
      else Inr \<lparr>netloc = [], path = u\<rparr>)"

section \<open>Insert-if-absent: rows are never overwritten\<close>

lemma queue_add_keys:
  "set (map q_key (crawl_queue_tbl (queue_add c key url depth is_hub mcd))) =
     insert key (set (map q_key (crawl_queue_tbl c)))"
  by (auto simp: queue_add_def)

lemma queue_add_distinct:
  "distinct (map q_key (crawl_queue_tbl c)) \<Longrightarrow>
   distinct (map q_key (crawl_queue_tbl (queue_add c key url depth is_hub mcd)))"
  by (auto simp: queue_add_def)

lemma count_one_of_distinct:
  "distinct (map f xs) \<Longrightarrow> k \<in> set (map f xs) \<Longrightarrow> length (filter (\<lambda>r. f r = k) xs) = 1"
proof (induction xs)
  case Nil
  then show ?case by simp
next
  case (Cons x xs)
  show ?case
  proof (cases "f x = k")
    case True
    with Cons.prems have "k \<notin> f ` set xs"
      by auto
    then have "filter (\<lambda>r. f r = k) xs = []"
      by (auto simp: filter_empty_conv)
    with True show ?thesis by simp
  next
    case False
    with Cons show ?thesis by auto
  qed
qed

text \<open>
  C4. Calling \<^verbatim>\<open>queue_add\<close> with a key that is already in \<^verbatim>\<open>crawl_queue\<close> changes nothing,
  whatever url, depth, hub flag and reply depth the call carries: the connection state is
  the same afterwards (so the row keeps its original depth and flags), and the table, whose
  keys are unique, has exactly one row for that key.
\<close>

theorem queue_add_existing_key_unchanged:
  assumes "distinct (map q_key (crawl_queue_tbl c))"
    and "key \<in> set (map q_key (crawl_queue_tbl c))"
  shows "queue_add c key url depth is_hub mcd = c \<and>
         length (filter (\<lambda>r. q_key r = key)
                   (crawl_queue_tbl (queue_add c key url depth is_hub mcd))) = 1"
proof -
  from assms(2) have same: "queue_add c key url depth is_hub mcd = c"
    by (simp add: queue_add_def)
  from assms have "length (filter (\<lambda>r. q_key r = key) (crawl_queue_tbl c)) = 1"
    by (rule count_one_of_distinct)
  with same show ?thesis by simp
qed

theorem queue_add_existing_key_unchanged_witness:
  "distinct (map q_key (crawl_queue_tbl sample_con)) \<and>
   ''abc123'' \<in> set (map q_key (crawl_queue_tbl sample_con)) \<and>
   queue_add sample_con ''abc123'' ''https://www.reddit.com/comments/abc123'' 2 0 0 = sample_con \<and>
   crawl_queue_tbl (queue_add sample_con ''abc123'' ''https://www.reddit.com/comments/abc123'' 2 0 0)
     = [sample_hub_row]"
  using queue_add_existing_key_unchanged
    [of sample_con "''abc123''" "''https://www.reddit.com/comments/abc123''" 2 0 0]
  by (simp add: sample_con_def sample_hub_row_def)

lemma insert_post_ids:
  "set (map p_id (posts_tbl (fst (insert_post c row)))) = insert (p_id row) (set (map p_id (posts_tbl c)))"
  by (auto simp: insert_post_def)

lemma insert_post_distinct:
  "distinct (map p_id (posts_tbl c)) \<Longrightarrow> distinct (map p_id (posts_tbl (fst (insert_post c row))))"
  by (auto simp: insert_post_def)

text \<open>
  C5. \<^verbatim>\<open>insert_post\<close> returns true exactly when it created a row: then the table is the old
  one with the new row appended. When a row with the same id is already stored, the state
  is left as it was (the stored row is not overwritten), the table, whose ids are unique,
  still has exactly one row for that id, and the result is false.
\<close>

theorem insert_post_inserted_iff_new_row:
  assumes "distinct (map p_id (posts_tbl c))"
  shows "(snd (insert_post c row) \<longleftrightarrow> p_id row \<notin> set (map p_id (posts_tbl c))) \<and>
         (snd (insert_post c row) \<longleftrightarrow>
            posts_tbl (fst (insert_post c row)) = posts_tbl c @ [row]) \<and>
         (p_id row \<in> set (map p_id (posts_tbl c)) \<longrightarrow>
            fst (insert_post c row) = c \<and> \<not> snd (insert_post c row)) \<and>
         length (filter (\<lambda>r. p_id r = p_id row) (posts_tbl (fst (insert_post c row)))) = 1"
proof -
  have a: "snd (insert_post c row) \<longleftrightarrow> p_id row \<notin> set (map p_id (posts_tbl c))"
    by (simp add: insert_post_def)
  have b: "snd (insert_post c row) \<longleftrightarrow> posts_tbl (fst (insert_post c row)) = posts_tbl c @ [row]"
    by (simp add: insert_post_def)
  have c: "p_id row \<in> set (map p_id (posts_tbl c)) \<longrightarrow>
             fst (insert_post c row) = c \<and> \<not> snd (insert_post c row)"
    by (simp add: insert_post_def)
  have "distinct (map p_id (posts_tbl (fst (insert_post c row))))"
    using assms by (rule insert_post_distinct)
  moreover have "p_id row \<in> set (map p_id (posts_tbl (fst (insert_post c row))))"
    unfolding insert_post_ids by simp
  ultimately have d: "length (filter (\<lambda>r. p_id r = p_id row) (posts_tbl (fst (insert_post c row)))) = 1"
    by (rule count_one_of_distinct)
  from a b c d show ?thesis by blast
qed

theorem insert_post_inserted_iff_new_row_witness:
  "distinct (map p_id (posts_tbl (sample_con\<lparr>posts_tbl := [sample_post]\<rparr>))) \<and>
   p_id (sample_post\<lparr>p_score := 99\<rparr>) \<in> set (map p_id (posts_tbl (sample_con\<lparr>posts_tbl := [sample_post]\<rparr>))) \<and>
   insert_post (sample_con\<lparr>posts_tbl := [sample_post]\<rparr>) (sample_post\<lparr>p_score := 99\<rparr>)
     = (sample_con\<lparr>posts_tbl := [sample_post]\<rparr>, False) \<and>
   insert_post sample_con sample_post = (sample_con\<lparr>posts_tbl := [sample_post]\<rparr>, True)"
  using insert_post_inserted_iff_new_row
    [of "sample_con\<lparr>posts_tbl := [sample_post]\<rparr>" "sample_post\<lparr>p_score := 99\<rparr>"]
    insert_post_inserted_iff_new_row [of sample_con sample_post]
  by (simp add: sample_con_def sample_post_def insert_post_def)

section \<open>Normalisation: idempotence and effects\<close>

lemma stripped_strip: "stripped (strip s)"
proof -
  let ?a = "dropWhile py_isspace s"
  let ?b = "dropWhile py_isspace (rev ?a)"
  show ?thesis
  proof (cases "?b = []")
    case True
    then show ?thesis by (simp add: stripped_def strip_def)
  next
    case False
    then have hdb: "\<not> py_isspace (hd ?b)"
      using hd_dropWhile by blast
    from False have "rev ?a \<noteq> []"
      by (metis dropWhile.simps(1))
    then have ane: "?a \<noteq> []" by simp
    then have hda: "\<not> py_isspace (hd ?a)"
      using hd_dropWhile by blast
    have "rev ?a = takeWhile py_isspace (rev ?a) @ ?b"
      by simp
    then have "last (rev ?a) = last ?b"
      using False by (metis last_appendR)
    with ane have "last ?b = hd ?a"
      by (simp add: last_rev)
    with hda hdb False show ?thesis
      by (simp add: stripped_def strip_def last_rev hd_rev)
  qed
qed

lemma strip_stripped: "stripped s \<Longrightarrow> strip s = s"
proof (cases "s = []")
  case True
  then show ?thesis by (simp add: strip_def)
next
  case False
  assume "stripped s"
  with False have h: "\<not> py_isspace (hd s)" and l: "\<not> py_isspace (last s)"
    by (auto simp: stripped_def)
  from False h have a: "dropWhile py_isspace s = s"
    by (cases s) auto
  from False l have "\<not> py_isspace (hd (rev s))"
    by (simp add: hd_rev)
  with False have "dropWhile py_isspace (rev s) = rev s"
    by (cases "rev s") auto
  with a show ?thesis by (simp add: strip_def)
qed

lemma replace_Nil: "old \<noteq> [] \<Longrightarrow> replace old new [] = []"
  by (subst replace.simps) simp

lemma replace_prefix:
  "old \<noteq> [] \<Longrightarrow> prefix old s \<Longrightarrow>
     replace old new s = new @ replace old new (drop (length old) s)"
  by (subst replace.simps) simp

lemma replace_Cons:
  "old \<noteq> [] \<Longrightarrow> \<not> prefix old (c # cs) \<Longrightarrow> replace old new (c # cs) = c # replace old new cs"
  by (subst replace.simps) simp

lemma prefix_replaceD:
  assumes "old \<noteq> []" and "new \<noteq> []"
  shows "hd new \<notin> set t \<Longrightarrow> prefix t (replace old new s) \<Longrightarrow> prefix t s"
proof (induction s arbitrary: t)
  case Nil
  with assms show ?case by (simp add: replace_Nil)
next
  case (Cons c cs)
  show ?case
  proof (cases t)
    case Nil
    then show ?thesis by simp
  next
    case t: (Cons d ds)
    show ?thesis
    proof (cases "prefix old (c # cs)")
      case True
      with assms have "replace old new (c # cs) = new @ replace old new (drop (length old) (c # cs))"
        by (simp add: replace_prefix)
      with Cons.prems(2) t assms(2) have "d = hd new"
        by (cases new) auto
      with Cons.prems(1) t show ?thesis by simp
    next
      case False
      with assms have "replace old new (c # cs) = c # replace old new cs"
        by (simp add: replace_Cons)
      with Cons.prems t have "d = c" and "prefix ds (replace old new cs)" and "hd new \<notin> set ds"
        by auto
      with Cons.IH[of ds] t show ?thesis by simp
    qed
  qed
qed

lemma not_sublist_replace:
  assumes "old \<noteq> []" and "new \<noteq> []" and "hd new \<notin> set old"
    and glue: "\<And>r. \<not> sublist old r \<Longrightarrow> \<not> sublist old (new @ r)"
  shows "\<not> sublist old (replace old new s)"
proof (induction "length s" arbitrary: s rule: less_induct)
  case less
  show ?case
  proof (cases "prefix old s")
    case True
    with assms(1) have "length (drop (length old) s) < length s"
      by (cases s) (auto simp: prefix_def)
    then have "\<not> sublist old (replace old new (drop (length old) s))"
      by (rule less)
    then have "\<not> sublist old (new @ replace old new (drop (length old) s))"
      by (rule glue)
    with True assms(1) show ?thesis by (simp add: replace_prefix)
  next
    case False
    show ?thesis
    proof (cases s)
      case Nil
      with assms(1) show ?thesis by (simp add: replace_Nil)
    next
      case (Cons c cs)
      with less have ih: "\<not> sublist old (replace old new cs)" by simp
      have "\<not> prefix old (c # replace old new cs)"
      proof
        assume p: "prefix old (c # replace old new cs)"
        from assms(1) obtain o1 orest where old: "old = o1 # orest" by (cases old) auto
        with p have "o1 = c" and "prefix orest (replace old new cs)" by auto
        moreover from assms(3) old have "hd new \<notin> set orest" by simp
        ultimately have "prefix orest cs"
          using prefix_replaceD[OF assms(1,2)] by blast
        with \<open>o1 = c\<close> old have "prefix old (c # cs)" by simp
        with False Cons show False by simp
      qed
      with ih have "\<not> sublist old (c # replace old new cs)"
        by (simp add: sublist_Cons_right)
      with False Cons assms(1) show ?thesis by (simp add: replace_Cons)
    qed
  qed
qed

lemma replace_eq_Nil_iff:
  assumes "old \<noteq> []" and "new \<noteq> []"
  shows "replace old new s = [] \<longleftrightarrow> s = []"
proof (cases s)
  case Nil
  with assms show ?thesis by (simp add: replace_Nil)
next
  case (Cons c cs)
  with assms show ?thesis
    by (cases "prefix old s") (simp_all add: replace_prefix replace_Cons)
qed

lemma hd_replace:
  assumes "old \<noteq> []" and "new \<noteq> []" and "s \<noteq> []"
  shows "hd (replace old new s) = hd s \<or> hd (replace old new s) = hd new"
proof (cases s)
  case Nil
  with assms show ?thesis by simp
next
  case (Cons c cs)
  with assms show ?thesis
    by (cases "prefix old s") (simp_all add: replace_prefix replace_Cons)
qed

lemma last_replace:
  assumes "old \<noteq> []" and "new \<noteq> []"
  shows "s \<noteq> [] \<Longrightarrow> last (replace old new s) = last s \<or> last (replace old new s) = last new"
proof (induction "length s" arbitrary: s rule: less_induct)
  case less
  let ?d = "drop (length old) s"
  show ?case
  proof (cases "prefix old s")
    case True
    with assms have eq: "replace old new s = new @ replace old new ?d"
      by (simp add: replace_prefix)
    show ?thesis
    proof (cases "?d = []")
      case True
      with eq assms show ?thesis by (simp add: replace_Nil)
    next
      case False
      from less.prems assms(1) have "length ?d < length s" by (cases s) auto
      with False have "last (replace old new ?d) = last ?d \<or> last (replace old new ?d) = last new"
        by (rule less.hyps[rotated]) 
      moreover from False have "last ?d = last s" by simp
      moreover from False assms have "replace old new ?d \<noteq> []"
        by (simp add: replace_eq_Nil_iff)
      ultimately show ?thesis using eq by simp
    qed
  next
    case False
    from less.prems obtain c cs where s: "s = c # cs" by (cases s) auto
    with False assms have eq: "replace old new s = c # replace old new cs"
      by (simp add: replace_Cons)
    show ?thesis
    proof (cases "cs = []")
      case True
      with eq s assms show ?thesis by (simp add: replace_Nil)
    next
      case False
      with s have "last (replace old new cs) = last cs \<or> last (replace old new cs) = last new"
        by (intro less.hyps) auto
      moreover from False assms have "replace old new cs \<noteq> []"
        by (simp add: replace_eq_Nil_iff)
      ultimately show ?thesis using eq s False by simp
    qed
  qed
qed

lemma old_glue: "\<not> sublist ''old.reddit.com'' r \<Longrightarrow> \<not> sublist ''old.reddit.com'' (''www.reddit.com'' @ r)"
  by (simp add: sublist_Cons_right)

lemma no_old_after_replace:
  "\<not> sublist ''old.reddit.com'' (replace ''old.reddit.com'' ''www.reddit.com'' s)"
  by (rule not_sublist_replace) (simp_all add: sublist_Cons_right)

lemma not_space_w: "\<not> py_isspace CHR ''w''" "\<not> py_isspace CHR ''m''" "\<not> py_isspace CHR ''h''" "\<not> py_isspace CHR ''/''"
  by (simp_all add: py_isspace_def)

lemma stripped_replace:
  assumes "stripped s"
  shows "stripped (replace ''old.reddit.com'' ''www.reddit.com'' s)"
proof (cases "s = []")
  case True
  then show ?thesis by (simp add: replace_Nil stripped_def)
next
  case False
  with assms have h: "\<not> py_isspace (hd s)" and l: "\<not> py_isspace (last s)"
    by (auto simp: stripped_def)
  let ?r = "replace ''old.reddit.com'' ''www.reddit.com'' s"
  from False have "hd ?r = hd s \<or> hd ?r = hd ''www.reddit.com''"
    by (intro hd_replace) simp_all
  with h have "\<not> py_isspace (hd ?r)"
    by (auto simp: not_space_w)
  moreover from False have "last ?r = last s \<or> last ?r = last ''www.reddit.com''"
    by (intro last_replace) simp_all
  with l have "\<not> py_isspace (last ?r)"
    by (auto simp: not_space_w)
  ultimately show ?thesis by (simp add: stripped_def)
qed

lemma stripped_append:
  assumes "p \<noteq> []" and "\<not> py_isspace (hd p)" and "\<not> py_isspace (last p)"
    and "s \<noteq> [] \<Longrightarrow> \<not> py_isspace (last s)"
  shows "stripped (p @ s)"
  using assms by (cases "s = []") (simp_all add: stripped_def)

lemma stripped_last: "stripped s \<Longrightarrow> s \<noteq> [] \<Longrightarrow> \<not> py_isspace (last s)"
  by (simp add: stripped_def)

lemma no_old_https: "sublist ''old.reddit.com'' (''https://'' @ s) \<longleftrightarrow> sublist ''old.reddit.com'' s"
  by (simp add: sublist_Cons_right)

lemma normalize_fixed:
  assumes "stripped v" and "\<not> prefix ''http://'' v" and "\<not> sublist ''old.reddit.com'' v"
    and "sublist ''reddit.com'' v \<Longrightarrow> prefix ''https://'' v"
  shows "normalize_reddit_url v = v"
proof -
  from assms(1) have "strip v = v" by (rule strip_stripped)
  with assms(2,3,4) show ?thesis
    unfolding normalize_reddit_url_def Let_def by auto
qed

text \<open>
  C6. Normalisation is idempotent: for every string \<open>u\<close>, normalising the result of
  \<^verbatim>\<open>normalize_reddit_url(u)\<close> again gives the same string.
\<close>

theorem normalize_reddit_url_idempotent:
  "normalize_reddit_url (normalize_reddit_url u) = normalize_reddit_url u"
proof -
  define a where "a = strip u"
  define b where "b = (if prefix ''http://'' a then ''https://'' @ drop (length ''http://'') a else a)"
  define c where "c = (if sublist ''old.reddit.com'' b
                       then replace ''old.reddit.com'' ''www.reddit.com'' b else b)"
  define v where "v = (if sublist ''reddit.com'' c \<and> \<not> prefix ''https://'' c then ''https://'' @ c else c)"
  have nv: "normalize_reddit_url u = v"
    unfolding normalize_reddit_url_def Let_def v_def c_def b_def a_def ..
  have sa: "stripped a"
    unfolding a_def by (rule stripped_strip)
  have sb: "stripped b"
  proof (cases "prefix ''http://'' a")
    case True
    have "stripped (''https://'' @ drop (length ''http://'') a)"
    proof (rule stripped_append)
      assume "drop (length ''http://'') a \<noteq> []"
      then have "a \<noteq> []" and "last (drop (length ''http://'') a) = last a" by auto
      with sa show "\<not> py_isspace (last (drop (length ''http://'') a))"
        by (simp add: stripped_def)
    qed (simp_all add: not_space_w)
    with True show ?thesis by (simp add: b_def)
  next
    case False
    with sa show ?thesis by (simp add: b_def)
  qed
  have nb: "\<not> prefix ''http://'' b"
    by (simp add: b_def)
  have sc: "stripped c"
    using sb by (simp add: c_def stripped_replace)
  have nc: "\<not> prefix ''http://'' c"
  proof
    assume p: "prefix ''http://'' c"
    have "prefix ''http://'' b"
    proof (cases "sublist ''old.reddit.com'' b")
      case True
      with p have "prefix ''http://'' (replace ''old.reddit.com'' ''www.reddit.com'' b)"
        by (simp add: c_def)
      then show ?thesis
        by (rule prefix_replaceD[rotated 3]) simp_all
    next
      case False
      with p show ?thesis by (simp add: c_def)
    qed
    with nb show False ..
  qed
  have oc: "\<not> sublist ''old.reddit.com'' c"
    by (simp add: c_def no_old_after_replace)
  have sv: "stripped v"
  proof (cases "sublist ''reddit.com'' c \<and> \<not> prefix ''https://'' c")
    case True
    have "stripped (''https://'' @ c)"
      using sc by (intro stripped_append) (simp_all add: not_space_w stripped_def)
    with True show ?thesis by (simp add: v_def)
  next
    case False
    then have "v = c" unfolding v_def by (rule if_not_P)
    with sc show ?thesis by simp
  qed
  have pv: "\<not> prefix ''http://'' v"
    using nc by (simp add: v_def)
  have ov: "\<not> sublist ''old.reddit.com'' v"
    using oc by (simp add: v_def no_old_https del: append.simps)
  have hv: "sublist ''reddit.com'' v \<Longrightarrow> prefix ''https://'' v"
    by (cases "sublist ''reddit.com'' c \<and> \<not> prefix ''https://'' c") (auto simp: v_def)
  from sv pv ov hv have "normalize_reddit_url v = v"
    by (rule normalize_fixed)
  with nv show ?thesis by simp
qed

lemma sublist_replace_new:
  assumes "old \<noteq> []"
  shows "sublist old s \<Longrightarrow> sublist new (replace old new s)"
proof (induction s)
  case Nil
  with assms show ?case by simp
next
  case (Cons c cs)
  show ?case
  proof (cases "prefix old (c # cs)")
    case True
    with assms show ?thesis by (simp add: replace_prefix)
  next
    case False
    with Cons.prems have "sublist old cs" by (simp add: sublist_Cons_right)
    then have "sublist new (replace old new cs)" by (rule Cons.IH)
    then have "sublist new (c # replace old new cs)" by (simp add: sublist_Cons_right)
    with False assms show ?thesis by (simp add: replace_Cons)
  qed
qed

lemma reddit_in_www: "sublist ''reddit.com'' ''www.reddit.com''"
  by (simp add: sublist_Cons_right)

lemma reddit_after_http: "sublist ''reddit.com'' (''http://'' @ r) \<longleftrightarrow> sublist ''reddit.com'' r"
  by (simp add: sublist_Cons_right)

lemma reddit_after_https: "sublist ''reddit.com'' (''https://'' @ r) \<longleftrightarrow> sublist ''reddit.com'' r"
  by (simp add: sublist_Cons_right)

lemma replace_unchanged:
  assumes "old \<noteq> []"
  shows "\<not> sublist old s \<Longrightarrow> replace old new s = s"
proof (induction s)
  case Nil
  with assms show ?case by (simp add: replace_Nil)
next
  case (Cons c cs)
  from Cons.prems have np: "\<not> prefix old (c # cs)" and ns: "\<not> sublist old cs"
    by (simp_all add: sublist_Cons_right)
  from ns have "replace old new cs = cs" by (rule Cons.IH)
  with np assms show ?case by (simp add: replace_Cons)
qed

lemma prefix_of_long_front:
  assumes "prefix xs (ys @ zs)" and "length xs \<le> length ys"
  shows "prefix xs ys"
proof -
  from assms(1) have "prefix xs ys \<or> (\<exists>us. xs = ys @ us \<and> prefix us zs)"
    by (simp add: prefix_append)
  then show ?thesis
  proof
    assume "\<exists>us. xs = ys @ us \<and> prefix us zs"
    then obtain us where xs: "xs = ys @ us" by blast
    with assms(2) have "us = []" by simp
    with xs show ?thesis by simp
  qed
qed

lemma replace_first_occurrence:
  assumes "old \<noteq> []"
  shows "\<not> sublist old (p @ butlast old) \<Longrightarrow>
         replace old new (p @ old @ q) = p @ new @ replace old new q"
proof (induction p)
  case Nil
  have "prefix old (old @ q)" by simp
  with assms have "replace old new (old @ q) = new @ replace old new (drop (length old) (old @ q))"
    by (rule replace_prefix)
  then show ?case by simp
next
  case (Cons c p)
  have np: "\<not> prefix old (c # p @ old @ q)"
  proof
    assume pre: "prefix old (c # p @ old @ q)"
    have split: "c # p @ old @ q = ((c # p) @ butlast old) @ (last old # q)"
      using assms by simp
    have "length old \<le> length ((c # p) @ butlast old)"
      by simp
    with pre have "prefix old ((c # p) @ butlast old)"
      unfolding split by (rule prefix_of_long_front)
    then have "sublist old ((c # p) @ butlast old)"
      by (rule prefix_imp_sublist)
    with Cons.prems show False by simp
  qed
  from Cons.prems have "\<not> sublist old (p @ butlast old)"
    by (simp add: sublist_Cons_right)
  then have "replace old new (p @ old @ q) = p @ new @ replace old new q"
    by (rule Cons.IH)
  with np assms show ?case by (simp add: replace_Cons)
qed

lemma replace_after_https:
  "replace ''old.reddit.com'' ''www.reddit.com'' (''https://'' @ r)
     = ''https://'' @ replace ''old.reddit.com'' ''www.reddit.com'' r"
  by (simp add: replace_Cons)

lemma old_contains_reddit: "sublist ''reddit.com'' ''old.reddit.com''"
  by (simp add: sublist_Cons_right)

lemma normalize_stripped: "stripped (normalize_reddit_url u)"
proof -
  define a where "a = strip u"
  define b where "b = (if prefix ''http://'' a then ''https://'' @ drop (length ''http://'') a else a)"
  define c where "c = (if sublist ''old.reddit.com'' b
                       then replace ''old.reddit.com'' ''www.reddit.com'' b else b)"
  define v where "v = (if sublist ''reddit.com'' c \<and> \<not> prefix ''https://'' c then ''https://'' @ c else c)"
  have nv: "normalize_reddit_url u = v"
    unfolding normalize_reddit_url_def Let_def v_def c_def b_def a_def ..
  have sa: "stripped a"
    unfolding a_def by (rule stripped_strip)
  have sb: "stripped b"
  proof (cases "prefix ''http://'' a")
    case True
    have "stripped (''https://'' @ drop (length ''http://'') a)"
    proof (rule stripped_append)
      assume "drop (length ''http://'') a \<noteq> []"
      then have "a \<noteq> []" and "last (drop (length ''http://'') a) = last a" by auto
      with sa show "\<not> py_isspace (last (drop (length ''http://'') a))"
        by (simp add: stripped_def)
    qed (simp_all add: not_space_w)
    with True show ?thesis by (simp add: b_def)
  next
    case False
    with sa show ?thesis by (simp add: b_def)
  qed
  have sc: "stripped c"
    using sb by (simp add: c_def stripped_replace)
  have "stripped v"
  proof (cases "sublist ''reddit.com'' c \<and> \<not> prefix ''https://'' c")
    case True
    have "stripped (''https://'' @ c)"
      using sc by (intro stripped_append) (simp_all add: not_space_w stripped_def)
    with True show ?thesis by (simp add: v_def)
  next
    case False
    then have "v = c" unfolding v_def by (rule if_not_P)
    with sc show ?thesis by simp
  qed
  with nv show ?thesis by simp
qed

lemma normalize_as_replace:
  "normalize_reddit_url u =
     (let a = strip u;
          b = (if prefix ''http://'' a then ''https://'' @ drop (length ''http://'') a else a);
          c = replace ''old.reddit.com'' ''www.reddit.com'' b
      in if sublist ''reddit.com'' c \<and> \<not> prefix ''https://'' c then ''https://'' @ c else c)"
proof -
  have "(if sublist ''old.reddit.com'' b then replace ''old.reddit.com'' ''www.reddit.com'' b else b)
          = replace ''old.reddit.com'' ''www.reddit.com'' b" for b
    by (simp add: replace_unchanged)
  then show ?thesis
    by (simp add: normalize_reddit_url_def Let_def)
qed

lemma reddit_kept_by_replace:
  assumes "sublist ''reddit.com'' s"
  shows "sublist ''reddit.com'' (replace ''old.reddit.com'' ''www.reddit.com'' s)"
proof (cases "sublist ''old.reddit.com'' s")
  case True
  then have "sublist ''www.reddit.com'' (replace ''old.reddit.com'' ''www.reddit.com'' s)"
    by (intro sublist_replace_new) simp_all
  with reddit_in_www show ?thesis
    by (rule sublist_order.order.trans)
next
  case False
  with assms show ?thesis by (simp add: replace_unchanged)
qed

lemma https_not_by_replace:
  assumes "\<not> prefix ''https://'' s"
  shows "\<not> prefix ''https://'' (replace ''old.reddit.com'' ''www.reddit.com'' s)"
proof
  assume "prefix ''https://'' (replace ''old.reddit.com'' ''www.reddit.com'' s)"
  then have "prefix ''https://'' s"
    by (rule prefix_replaceD[rotated 3]) simp_all
  with assms show False ..
qed

text \<open>
  C8. What \<^verbatim>\<open>normalize_reddit_url\<close> returns for every string \<open>u\<close>, in terms of \<open>strip u\<close>, the
  string without its surrounding whitespace. If it is \<^verbatim>\<open>http://\<close> followed by \<open>r\<close>, the result is
  \<^verbatim>\<open>https://\<close> followed by \<open>r\<close> with \<^verbatim>\<open>old.reddit.com\<close> rewritten. If it starts with \<^verbatim>\<open>https://\<close>,
  the result is the string with \<^verbatim>\<open>old.reddit.com\<close> rewritten. If it starts with neither and
  contains \<^verbatim>\<open>reddit.com\<close>, the result is \<^verbatim>\<open>https://\<close> followed by the string with
  \<^verbatim>\<open>old.reddit.com\<close> rewritten. If it does not start with \<^verbatim>\<open>http://\<close> and does not contain
  \<^verbatim>\<open>reddit.com\<close>, the result is the stripped string itself: no scheme is added. The result is
  always stripped. The rewriting is \<^verbatim>\<open>str.replace\<close>: it leaves a string without
  \<^verbatim>\<open>old.reddit.com\<close> as it is, turns the leftmost occurrence into \<^verbatim>\<open>www.reddit.com\<close> and goes on
  behind it, and leaves no \<^verbatim>\<open>old.reddit.com\<close> in its result.
\<close>

theorem normalize_reddit_url_effects:
  "(\<forall>r. strip u = ''http://'' @ r \<longrightarrow>
        normalize_reddit_url u = ''https://'' @ replace ''old.reddit.com'' ''www.reddit.com'' r) \<and>
   (prefix ''https://'' (strip u) \<longrightarrow>
        normalize_reddit_url u = replace ''old.reddit.com'' ''www.reddit.com'' (strip u)) \<and>
   (\<not> prefix ''http://'' (strip u) \<and> \<not> prefix ''https://'' (strip u) \<and> sublist ''reddit.com'' (strip u) \<longrightarrow>
        normalize_reddit_url u = ''https://'' @ replace ''old.reddit.com'' ''www.reddit.com'' (strip u)) \<and>
   (\<not> prefix ''http://'' (strip u) \<and> \<not> sublist ''reddit.com'' (strip u) \<longrightarrow>
        normalize_reddit_url u = strip u) \<and>
   strip (normalize_reddit_url u) = normalize_reddit_url u \<and>
   (\<forall>s. \<not> sublist ''old.reddit.com'' s \<longrightarrow> replace ''old.reddit.com'' ''www.reddit.com'' s = s) \<and>
   (\<forall>p q. \<not> sublist ''old.reddit.com'' (p @ butlast ''old.reddit.com'') \<longrightarrow>
        replace ''old.reddit.com'' ''www.reddit.com'' (p @ ''old.reddit.com'' @ q)
          = p @ ''www.reddit.com'' @ replace ''old.reddit.com'' ''www.reddit.com'' q) \<and>
   (\<forall>s. \<not> sublist ''old.reddit.com'' (replace ''old.reddit.com'' ''www.reddit.com'' s))"
proof -
  let ?R = "replace ''old.reddit.com'' ''www.reddit.com''"
  have c1: "normalize_reddit_url u = ''https://'' @ ?R r" if "strip u = ''http://'' @ r" for r
  proof -
    have "?R (''https://'' @ r) = ''https://'' @ ?R r"
      by (rule replace_after_https)
    with that show ?thesis
      by (simp add: normalize_as_replace Let_def)
  qed
  have c2: "normalize_reddit_url u = ?R (strip u)" if "prefix ''https://'' (strip u)"
  proof -
    from that obtain r where a: "strip u = ''https://'' @ r" by (auto simp: prefix_def)
    have "?R (''https://'' @ r) = ''https://'' @ ?R r"
      by (rule replace_after_https)
    with a show ?thesis
      by (simp add: normalize_as_replace Let_def)
  qed
  have c3: "normalize_reddit_url u = ''https://'' @ ?R (strip u)"
    if "\<not> prefix ''http://'' (strip u)" "\<not> prefix ''https://'' (strip u)" "sublist ''reddit.com'' (strip u)"
  proof -
    from that(3) have "sublist ''reddit.com'' (?R (strip u))" by (rule reddit_kept_by_replace)
    moreover from that(2) have "\<not> prefix ''https://'' (?R (strip u))" by (rule https_not_by_replace)
    ultimately show ?thesis using that(1)
      by (simp add: normalize_as_replace Let_def)
  qed
  have c4: "normalize_reddit_url u = strip u"
    if "\<not> prefix ''http://'' (strip u)" "\<not> sublist ''reddit.com'' (strip u)"
  proof -
    have "\<not> sublist ''old.reddit.com'' (strip u)"
    proof
      assume "sublist ''old.reddit.com'' (strip u)"
      with old_contains_reddit have "sublist ''reddit.com'' (strip u)"
        by (rule sublist_order.order.trans)
      with that(2) show False ..
    qed
    then have "?R (strip u) = strip u" by (simp add: replace_unchanged)
    with that show ?thesis
      by (simp add: normalize_as_replace Let_def)
  qed
  have c5: "strip (normalize_reddit_url u) = normalize_reddit_url u"
    using normalize_stripped by (rule strip_stripped)
  have c6: "?R s = s" if "\<not> sublist ''old.reddit.com'' s" for s
    using that by (simp add: replace_unchanged)
  have c7: "?R (p @ ''old.reddit.com'' @ q) = p @ ''www.reddit.com'' @ ?R q"
    if "\<not> sublist ''old.reddit.com'' (p @ butlast ''old.reddit.com'')" for p q
    using that by (intro replace_first_occurrence) simp_all
  from c1 c2 c3 c4 c5 c6 c7 no_old_after_replace show ?thesis
    by blast
qed

theorem normalize_reddit_url_effects_witness:
  "strip ''  http://old.reddit.com/r/Superstonk/comments/abc123/dd/ ''
     = ''http://'' @ ''old.reddit.com/r/Superstonk/comments/abc123/dd/'' \<and>
   \<not> sublist ''old.reddit.com'' ([] @ butlast ''old.reddit.com'') \<and>
   \<not> sublist ''old.reddit.com'' ''/r/Superstonk/comments/abc123/dd/'' \<and>
   normalize_reddit_url ''  http://old.reddit.com/r/Superstonk/comments/abc123/dd/ ''
     = ''https://www.reddit.com/r/Superstonk/comments/abc123/dd/'' \<and>
   \<not> prefix ''http://'' (strip '' example.org/x'') \<and>
   \<not> sublist ''reddit.com'' (strip '' example.org/x'') \<and>
   normalize_reddit_url '' example.org/x'' = ''example.org/x''"
proof -
  let ?u = "''  http://old.reddit.com/r/Superstonk/comments/abc123/dd/ ''"
  let ?r = "''old.reddit.com/r/Superstonk/comments/abc123/dd/''"
  let ?q = "''/r/Superstonk/comments/abc123/dd/''"
  let ?R = "replace ''old.reddit.com'' ''www.reddit.com''"
  have a: "strip ?u = ''http://'' @ ?r" by code_simp
  have b: "\<not> sublist ''old.reddit.com'' ([] @ butlast ''old.reddit.com'')" by code_simp
  have c: "\<not> sublist ''old.reddit.com'' ?q" by code_simp
  have d: "\<not> prefix ''http://'' (strip '' example.org/x'')" by code_simp
  have e: "\<not> sublist ''reddit.com'' (strip '' example.org/x'')" by code_simp
  have f: "strip '' example.org/x'' = ''example.org/x''" by code_simp
  note eff = normalize_reddit_url_effects [of ?u]
  from eff a have "normalize_reddit_url ?u = ''https://'' @ ?R ?r" by blast
  moreover from eff b have "?R ([] @ ''old.reddit.com'' @ ?q) = [] @ ''www.reddit.com'' @ ?R ?q" by blast
  moreover from eff c have "?R ?q = ?q" by blast
  ultimately have g: "normalize_reddit_url ?u = ''https://www.reddit.com/r/Superstonk/comments/abc123/dd/''"
    by simp
  from normalize_reddit_url_effects [of "'' example.org/x''"] d e
  have "normalize_reddit_url '' example.org/x'' = strip '' example.org/x''" by blast
  with f have h: "normalize_reddit_url '' example.org/x'' = ''example.org/x''" by simp
  from a b c g d e h show ?thesis by (intro conjI)
qed

text \<open>
  The claim as stated, that a scheme is present in the result for every string, fails on a
  short link written without a scheme: the guard \<^verbatim>\<open>"reddit.com" in u\<close> does not hold, and the
  string is returned as it is.
\<close>

theorem normalize_reddit_url_no_scheme_counterexample:
  "normalize_reddit_url ''redd.it/abc123'' = ''redd.it/abc123'' \<and>
   \<not> sublist ''://'' (normalize_reddit_url ''redd.it/abc123'') \<and>
   \<not> prefix ''https://'' (normalize_reddit_url ''redd.it/abc123'')"
  by code_simp

section \<open>Classification of submission URLs\<close>

text \<open>
  C7. \<^verbatim>\<open>is_reddit_submission_url\<close> looks for the short-link marker \<^verbatim>\<open>redd.it/\<close> in the path that
  \<^verbatim>\<open>urlparse\<close> gives, not in the URL. For the short link \<^verbatim>\<open>https://redd.it/abc123\<close> the library
  gives the host \<^verbatim>\<open>redd.it\<close> and the path \<^verbatim>\<open>/abc123\<close>: the host test succeeds, the path test
  fails, and the URL is classified as not a submission, although \<^verbatim>\<open>submission_id_from_url\<close>
  finds the id \<^verbatim>\<open>abc123\<close> in the same URL.
\<close>

theorem is_reddit_submission_url_misses_short_link:
  assumes "urlparse ''https://redd.it/abc123'' = Inr \<lparr>netloc = ''redd.it'', path = ''/abc123''\<rparr>"
  shows "\<not> is_reddit_submission_url urlparse ''https://redd.it/abc123'' \<and>
         sublist ''redd.it'' ''redd.it'' \<and>
         submission_id_from_url ''https://redd.it/abc123'' = Some ''abc123''"
proof -
  have "\<not> sublist ''/comments/'' ''/abc123''" and "\<not> sublist ''redd.it/'' ''/abc123''"
    by code_simp+
  with assms have "\<not> is_reddit_submission_url urlparse ''https://redd.it/abc123''"
    by (simp add: is_reddit_submission_url_def Let_def)
  moreover have "submission_id_from_url ''https://redd.it/abc123'' = Some ''abc123''"
    by code_simp
  ultimately show ?thesis by simp
qed

theorem is_reddit_submission_url_misses_short_link_witness:
  "sample_urlparse ''https://redd.it/abc123'' = Inr \<lparr>netloc = ''redd.it'', path = ''/abc123''\<rparr> \<and>
   \<not> is_reddit_submission_url sample_urlparse ''https://redd.it/abc123'' \<and>
   submission_id_from_url ''https://redd.it/abc123'' = Some ''abc123'' \<and>
   is_reddit_submission_url sample_urlparse ''https://www.reddit.com/r/Superstonk/comments/abc123/dd/''"
proof -
  have p: "sample_urlparse ''https://redd.it/abc123'' = Inr \<lparr>netloc = ''redd.it'', path = ''/abc123''\<rparr>"
    by code_simp
  have q: "is_reddit_submission_url sample_urlparse
             ''https://www.reddit.com/r/Superstonk/comments/abc123/dd/''"
    by code_simp
  from is_reddit_submission_url_misses_short_link [of sample_urlparse, OF p] p q show ?thesis
    by simp
qed

section \<open>What the pipeline does to the queue table\<close>

lemma upsert_link_queue [simp]: "crawl_queue_tbl (upsert_link c p u) = crawl_queue_tbl c"
  by (simp add: upsert_link_def)

lemma insert_post_queue [simp]: "crawl_queue_tbl (fst (insert_post c row)) = crawl_queue_tbl c"
  by (simp add: insert_post_def)

lemma time_sleep_queue [simp]: "crawl_queue_tbl (time_sleep s c) = crawl_queue_tbl c"
  by (simp add: time_sleep_def)

lemma upsert_link_clock [simp]: "clock (upsert_link c p u) = clock c"
  by (simp add: upsert_link_def)

lemma insert_post_clock [simp]: "clock (fst (insert_post c row)) = clock c"
  by (simp add: insert_post_def)

lemma queue_add_clock [simp]: "clock (queue_add c k u d h m) = clock c"
  by (simp add: queue_add_def)

lemma queue_mark_clock [simp]: "clock (queue_mark c k s e) = clock c"
  by (simp add: queue_mark_def)

lemma queue_appends_refl: "queue_appends d c c"
  by (simp add: queue_appends_def fresh_rows_def)

lemma queue_appends_same:
  "queue_appends d c c' \<Longrightarrow> crawl_queue_tbl c'' = crawl_queue_tbl c' \<Longrightarrow> clock c'' = clock c'
     \<Longrightarrow> queue_appends d c c''"
  by (simp add: queue_appends_def)

lemma queue_appends_add:
  assumes "queue_appends d c c'"
  shows "queue_appends d c (queue_add c' k u d 0 0)"
proof -
  from assms obtain new where t: "crawl_queue_tbl c' = crawl_queue_tbl c @ new"
    and f: "fresh_rows d 0 (crawl_queue_tbl c) new" and cl: "clock c' = clock c"
    by (auto simp: queue_appends_def)
  show ?thesis
  proof (cases "k \<in> set (map q_key (crawl_queue_tbl c'))")
    case True
    then have "queue_add c' k u d 0 0 = c'" by (simp add: queue_add_def)
    with assms show ?thesis by simp
  next
    case False
    let ?r = "\<lparr>q_key = k, q_url = u, q_depth = d, q_status = ''queued'',
               q_last_error = None, q_is_hub = 0, q_max_comment_depth = 0,
               q_added_at_utc = now_utc_iso c', q_updated_at_utc = now_utc_iso c'\<rparr>"
    from False have "crawl_queue_tbl (queue_add c' k u d 0 0) = crawl_queue_tbl c @ (new @ [?r])"
      by (simp add: queue_add_def t)
    moreover from False f t have "fresh_rows d 0 (crawl_queue_tbl c) (new @ [?r])"
      by (auto simp: fresh_rows_def)
    ultimately show ?thesis using cl by (auto simp: queue_appends_def)
  qed
qed

lemma discover_link_appends:
  assumes "queue_appends (d + 1) c c'"
  shows "queue_appends (d + 1) c (discover_link up p d u c')"
proof -
  have a: "queue_appends (d + 1) c (upsert_link c' p u)"
    using assms by (rule queue_appends_same) simp_all
  then show ?thesis
    by (auto simp: discover_link_def Let_def intro: queue_appends_add)
qed

lemma discover_link_no_add:
  "\<not> d < MAX_CRAWL_DEPTH \<Longrightarrow> crawl_queue_tbl (discover_link up p d u c) = crawl_queue_tbl c"
  by (simp add: discover_link_def Let_def)

lemma fold_discover_link_appends:
  "queue_appends (d + 1) c c' \<Longrightarrow> queue_appends (d + 1) c (fold (discover_link up p d) us c')"
  by (induction us arbitrary: c') (simp_all add: discover_link_appends)

lemma fold_discover_link_no_add:
  "\<not> d < MAX_CRAWL_DEPTH \<Longrightarrow> crawl_queue_tbl (fold (discover_link up p d) us c) = crawl_queue_tbl c"
  by (induction us arbitrary: c) (simp_all add: discover_link_no_add)

lemma store_appends:
  "queue_appends (d + 1) c (fst (store_submission_and_discover up c sub d))"
proof -
  let ?row = "\<lparr>p_id = s_id sub, p_subreddit = s_subreddit sub, p_created_utc = s_created_utc sub,
                 p_created_iso = s_created_utc sub, p_title = s_title sub, p_selftext = s_selftext sub,
                 p_score = s_score sub, p_num_comments = s_num_comments sub,
                 p_permalink = ''https://www.reddit.com'' @ s_permalink sub, p_url = s_url sub,
                 p_link_flair_text = s_link_flair_text sub, p_author = s_author sub,
                 p_retrieved_at_utc = now_utc_iso c\<rparr>"
  have "queue_appends (d + 1) c (fst (insert_post c ?row))"
    using queue_appends_refl by (rule queue_appends_same) simp_all
  then show ?thesis
    by (simp add: store_submission_and_discover_def Let_def split_beta fold_discover_link_appends)
qed

lemma store_no_add:
  "\<not> d < MAX_CRAWL_DEPTH \<Longrightarrow>
     crawl_queue_tbl (fst (store_submission_and_discover up c sub d)) = crawl_queue_tbl c"
  by (simp add: store_submission_and_discover_def Let_def split_beta fold_discover_link_no_add)

lemma store_clock [simp]: "clock (fst (store_submission_and_discover up c sub d)) = clock c"
  using store_appends[of d c up sub] by (simp add: queue_appends_def)

lemma fold_hub_links_appends:
  "queue_appends (d + 1) c c' \<Longrightarrow>
   queue_appends (d + 1) c
     (fold (\<lambda>nu c'. queue_add c' (case submission_id_from_url nu of Some i \<Rightarrow> i | None \<Rightarrow> nu)
                       nu (d + 1) 0 0) links c')"
  by (induction links arbitrary: c') (simp_all add: queue_appends_add)

lemma crawl_item_try_state_independent:
  "snd (crawl_item_try up rd c item) = snd (crawl_item_try up rd c0 item)"
  by (cases item) (simp add: crawl_item_try_def Let_def split: sum.splits option.splits)

lemma crawl_item_ok_iff:
  "snd (crawl_item up rd c item) \<longleftrightarrow> snd (crawl_item_try up rd c item) = None"
  by (cases "crawl_item_try up rd c item") (auto simp: crawl_item_def split: option.splits)

lemma crawl_item_as_mark:
  fixes key url depth is_hub mcd
  defines "item \<equiv> (key, url, depth, is_hub, mcd)"
  shows "\<exists>c2. queue_appends (depth + 1) c c2 \<and>
              (crawl_queue_tbl c2 \<noteq> crawl_queue_tbl c \<longrightarrow>
                 depth < MAX_CRAWL_DEPTH \<or> (is_hub = 1 \<and> depth \<le> MAX_CRAWL_DEPTH)) \<and>
              fst (crawl_item up rd c item) =
                queue_mark c2 key (fst (item_status (snd (crawl_item_try up rd c item))))
                                  (snd (item_status (snd (crawl_item_try up rd c item))))"
proof -
  define sid where "sid = (case submission_id_from_url url of
                      Some i \<Rightarrow> Some i
                    | None \<Rightarrow> if fullmatch_id key then Some key else None)"
  define fetched where "fetched = (case sid of
                          Some i \<Rightarrow> rd_submission_id rd i
                        | None \<Rightarrow> rd_submission_url rd url)"
  show ?thesis
  proof (cases fetched)
    case (Inl e)
    then have t: "crawl_item_try up rd c item = (c, Some e)"
      by (simp add: crawl_item_try_def item_def Let_def fetched_def sid_def)
    then have "fst (crawl_item up rd c item) = queue_mark c key ''error'' (Some (take 500 (exn_str e)))"
      by (simp add: crawl_item_def item_def)
    with t queue_appends_refl[of "depth + 1" c] show ?thesis
      by (auto simp: item_status_def)
  next
    case (Inr sub)
    define c1 where "c1 = fst (store_submission_and_discover up c sub depth)"
    have a1: "queue_appends (depth + 1) c c1"
      unfolding c1_def by (rule store_appends)
    have g1: "crawl_queue_tbl c1 \<noteq> crawl_queue_tbl c \<longrightarrow> depth < MAX_CRAWL_DEPTH"
      unfolding c1_def using store_no_add by blast
    show ?thesis
    proof (cases "is_hub = 1 \<and> depth \<le> MAX_CRAWL_DEPTH")
      case False
      with Inr have t: "crawl_item_try up rd c item = (queue_mark c1 key ''done'' None, None)"
        by (auto simp add: crawl_item_try_def item_def Let_def fetched_def sid_def c1_def)
      then have "fst (crawl_item up rd c item) = queue_mark c1 key ''done'' None"
        by (simp add: crawl_item_def)
      with t a1 g1 show ?thesis
        by (auto simp: item_status_def)
    next
      case True
      let ?ex = "extract_reddit_links_from_best_comments up sub
                   HUB_TOP_LEVEL_COMMENTS mcd HUB_MAX_REPLIES_PER_TOP"
      show ?thesis
      proof (cases ?ex)
        case (Inl e)
        with Inr True have t: "crawl_item_try up rd c item = (c1, Some e)"
          by (simp add: crawl_item_try_def item_def Let_def fetched_def sid_def c1_def)
        then have "fst (crawl_item up rd c item) = queue_mark c1 key ''error'' (Some (take 500 (exn_str e)))"
          by (simp add: crawl_item_def item_def)
        with t a1 True show ?thesis
          by (auto simp: item_status_def)
      next
        case (Inr links)
        define c2 where "c2 = fold (\<lambda>nu c'. queue_add c'
                                   (case submission_id_from_url nu of Some i \<Rightarrow> i | None \<Rightarrow> nu)
                                   nu (depth + 1) 0 0) links c1"
        have a2: "queue_appends (depth + 1) c c2"
          unfolding c2_def using a1 by (rule fold_hub_links_appends)
        from Inr \<open>fetched = Inr sub\<close> True
        have t: "crawl_item_try up rd c item = (queue_mark c2 key ''done'' None, None)"
          by (simp add: crawl_item_try_def item_def Let_def fetched_def sid_def c1_def c2_def)
        then have "fst (crawl_item up rd c item) = queue_mark c2 key ''done'' None"
          by (simp add: crawl_item_def)
        with t a2 True show ?thesis
          by (auto simp: item_status_def)
      qed
    qed
  qed
qed

lemma queue_mark_keys [simp]:
  "map q_key (crawl_queue_tbl (queue_mark c k s e)) = map q_key (crawl_queue_tbl c)"
  by (simp add: queue_mark_def comp_def)

lemma queue_mark_other_rows:
  assumes "k' \<noteq> k"
  shows "filter (\<lambda>r. q_key r = k') (crawl_queue_tbl (queue_mark c k s e))
           = filter (\<lambda>r. q_key r = k') (crawl_queue_tbl c)"
proof -
  have "filter (\<lambda>r. q_key r = k')
          (map (\<lambda>r. if q_key r = k
                    then r\<lparr>q_status := s, q_last_error := e, q_updated_at_utc := t\<rparr> else r) xs)
        = filter (\<lambda>r. q_key r = k') xs" for xs t
    using assms by (induction xs) simp_all
  then show ?thesis by (simp add: queue_mark_def)
qed

lemma queue_mark_own_rows:
  assumes "r \<in> set (crawl_queue_tbl (queue_mark c k s e))" and "q_key r = k"
  shows "q_status r = s \<and> q_last_error r = e"
proof -
  from assms(1) obtain x where x: "x \<in> set (crawl_queue_tbl c)"
    and r: "r = (if q_key x = k
                 then x\<lparr>q_status := s, q_last_error := e, q_updated_at_utc := now_utc_iso c\<rparr> else x)"
    by (auto simp: queue_mark_def)
  show ?thesis
  proof (cases "q_key x = k")
    case True
    with r show ?thesis by simp
  next
    case False
    with r assms(2) show ?thesis by simp
  qed
qed

lemma queue_appends_keys:
  "queue_appends d c c' \<Longrightarrow> set (map q_key (crawl_queue_tbl c)) \<subseteq> set (map q_key (crawl_queue_tbl c'))"
  by (auto simp: queue_appends_def)

lemma queue_appends_old_rows:
  assumes "queue_appends d c c'" and "k \<in> set (map q_key (crawl_queue_tbl c))"
  shows "filter (\<lambda>r. q_key r = k) (crawl_queue_tbl c') = filter (\<lambda>r. q_key r = k) (crawl_queue_tbl c)"
proof -
  from assms(1) obtain new where t: "crawl_queue_tbl c' = crawl_queue_tbl c @ new"
    and f: "fresh_rows d 0 (crawl_queue_tbl c) new"
    by (auto simp: queue_appends_def)
  from f assms(2) have "filter (\<lambda>r. q_key r = k) new = []"
    by (auto simp: fresh_rows_def filter_empty_conv)
  with t show ?thesis by simp
qed

lemma queue_appends_new_rows:
  assumes "queue_appends d c c'" and "r \<in> set (crawl_queue_tbl c')"
  shows "r \<in> set (crawl_queue_tbl c) \<or>
         (q_key r \<notin> set (map q_key (crawl_queue_tbl c)) \<and> q_depth r = d \<and> q_is_hub r = 0 \<and>
          q_status r = ''queued'')"
proof -
  from assms(1) obtain new where t: "crawl_queue_tbl c' = crawl_queue_tbl c @ new"
    and f: "fresh_rows d 0 (crawl_queue_tbl c) new"
    by (auto simp: queue_appends_def)
  show ?thesis
  proof (cases "r \<in> set new")
    case True
    with f have "q_key r \<in> set (map q_key new)" and "q_depth r = d \<and> q_is_hub r = 0 \<and> q_status r = ''queued''"
      by (auto simp: fresh_rows_def list_all_iff)
    moreover from f have "set (map q_key new) \<inter> set (map q_key (crawl_queue_tbl c)) = {}"
      by (simp add: fresh_rows_def)
    ultimately show ?thesis by blast
  next
    case False
    with assms(2) t show ?thesis by simp
  qed
qed

lemma crawl_item_keys:
  "set (map q_key (crawl_queue_tbl c)) \<subseteq> set (map q_key (crawl_queue_tbl (fst (crawl_item up rd c item))))"
proof -
  obtain key url depth is_hub mcd where item: "item = (key, url, depth, is_hub, mcd)"
    by (cases item)
  from crawl_item_as_mark[of depth c is_hub up rd key url mcd] item
  obtain c2 s e where a: "queue_appends (depth + 1) c c2"
    and m: "fst (crawl_item up rd c item) = queue_mark c2 key s e"
    by auto
  from m have "map q_key (crawl_queue_tbl (fst (crawl_item up rd c item))) = map q_key (crawl_queue_tbl c2)"
    by simp
  with queue_appends_keys[OF a] show ?thesis by simp
qed

lemma crawl_item_other_rows:
  assumes "k \<in> set (map q_key (crawl_queue_tbl c))" and "k \<noteq> fst item"
  shows "filter (\<lambda>r. q_key r = k) (crawl_queue_tbl (fst (crawl_item up rd c item)))
           = filter (\<lambda>r. q_key r = k) (crawl_queue_tbl c)"
proof -
  obtain key url depth is_hub mcd where item: "item = (key, url, depth, is_hub, mcd)"
    by (cases item)
  from crawl_item_as_mark[of depth c is_hub up rd key url mcd] item
  obtain c2 s e where a: "queue_appends (depth + 1) c c2"
    and m: "fst (crawl_item up rd c item) = queue_mark c2 key s e"
    by auto
  from assms(2) item have "k \<noteq> key" by simp
  with m have "filter (\<lambda>r. q_key r = k) (crawl_queue_tbl (fst (crawl_item up rd c item)))
                 = filter (\<lambda>r. q_key r = k) (crawl_queue_tbl c2)"
    by (simp add: queue_mark_other_rows)
  also from a assms(1) have "\<dots> = filter (\<lambda>r. q_key r = k) (crawl_queue_tbl c)"
    by (rule queue_appends_old_rows)
  finally show ?thesis .
qed

lemma crawl_item_own_rows:
  assumes "r \<in> set (crawl_queue_tbl (fst (crawl_item up rd c item)))" and "q_key r = fst item"
  shows "(q_status r, q_last_error r) = item_status (snd (crawl_item_try up rd c item))"
proof -
  obtain key url depth is_hub mcd where item: "item = (key, url, depth, is_hub, mcd)"
    by (cases item)
  from crawl_item_as_mark[of depth c is_hub up rd key url mcd] item
  obtain c2 where m: "fst (crawl_item up rd c item) =
      queue_mark c2 key (fst (item_status (snd (crawl_item_try up rd c item))))
                        (snd (item_status (snd (crawl_item_try up rd c item))))"
    by auto
  from assms item have "q_status r = fst (item_status (snd (crawl_item_try up rd c item))) \<and>
                        q_last_error r = snd (item_status (snd (crawl_item_try up rd c item)))"
    unfolding m by (intro queue_mark_own_rows) simp_all
  then show ?thesis by (simp add: prod_eq_iff)
qed

lemma crawl_item_foreign_rows:
  assumes "r \<in> set (crawl_queue_tbl (fst (crawl_item up rd c item)))" and "q_key r \<noteq> fst item"
  shows "r \<in> set (crawl_queue_tbl c) \<or> q_status r = ''queued''"
proof -
  obtain key url depth is_hub mcd where item: "item = (key, url, depth, is_hub, mcd)"
    by (cases item)
  from crawl_item_as_mark[of depth c is_hub up rd key url mcd] item
  obtain c2 s e where a: "queue_appends (depth + 1) c c2"
    and m: "fst (crawl_item up rd c item) = queue_mark c2 key s e"
    by auto
  from assms item have "r \<in> set (crawl_queue_tbl c2)"
    unfolding m by (auto simp: queue_mark_def)
  with a show ?thesis by (auto dest: queue_appends_new_rows)
qed

lemma crawl_batch_keys:
  "crawl_batch up rd sl dl batch c d e = (c', d', e', ret) \<Longrightarrow>
   set (map q_key (crawl_queue_tbl c)) \<subseteq> set (map q_key (crawl_queue_tbl c'))"
proof (induction batch arbitrary: c d e)
  case Nil
  then show ?case by simp
next
  case (Cons item rest)
  show ?case
  proof (cases "deadline_reached dl c")
    case True
    with Cons.prems show ?thesis by simp
  next
    case False
    obtain c1 ok where ci: "crawl_item up rd c item = (c1, ok)" by (cases "crawl_item up rd c item")
    with False Cons.prems
    have "crawl_batch up rd sl dl rest (time_sleep sl c1) (if ok then d + 1 else d)
            (if ok then e else e + 1) = (c', d', e', ret)"
      by simp
    then have "set (map q_key (crawl_queue_tbl (time_sleep sl c1))) \<subseteq> set (map q_key (crawl_queue_tbl c'))"
      by (rule Cons.IH)
    moreover from crawl_item_keys[of c up rd item] ci
    have "set (map q_key (crawl_queue_tbl c)) \<subseteq> set (map q_key (crawl_queue_tbl c1))" by simp
    ultimately show ?thesis by auto
  qed
qed

lemma crawl_batch_other_rows:
  "crawl_batch up rd sl dl batch c d e = (c', d', e', ret) \<Longrightarrow>
   k \<in> set (map q_key (crawl_queue_tbl c)) \<Longrightarrow> k \<notin> fst ` set batch \<Longrightarrow>
   filter (\<lambda>r. q_key r = k) (crawl_queue_tbl c') = filter (\<lambda>r. q_key r = k) (crawl_queue_tbl c)"
proof (induction batch arbitrary: c d e)
  case Nil
  then show ?case by simp
next
  case (Cons item rest)
  show ?case
  proof (cases "deadline_reached dl c")
    case True
    with Cons.prems show ?thesis by simp
  next
    case False
    obtain c1 ok where ci: "crawl_item up rd c item = (c1, ok)" by (cases "crawl_item up rd c item")
    with False Cons.prems
    have run: "crawl_batch up rd sl dl rest (time_sleep sl c1) (if ok then d + 1 else d)
            (if ok then e else e + 1) = (c', d', e', ret)"
      by simp
    from Cons.prems(3) have ne: "k \<noteq> fst item" and nr: "k \<notin> fst ` set rest" by auto
    from crawl_item_other_rows[OF Cons.prems(2) ne, of up rd] ci
    have same: "filter (\<lambda>r. q_key r = k) (crawl_queue_tbl c1) = filter (\<lambda>r. q_key r = k) (crawl_queue_tbl c)"
      by simp
    from crawl_item_keys[of c up rd item] ci Cons.prems(2)
    have "k \<in> set (map q_key (crawl_queue_tbl (time_sleep sl c1)))" by auto
    with run have "filter (\<lambda>r. q_key r = k) (crawl_queue_tbl c')
                     = filter (\<lambda>r. q_key r = k) (crawl_queue_tbl (time_sleep sl c1))"
      using nr by (rule Cons.IH)
    with same show ?thesis by simp
  qed
qed

lemma crawl_batch_foreign_rows:
  "crawl_batch up rd sl dl batch c d e = (c', d', e', ret) \<Longrightarrow>
   r \<in> set (crawl_queue_tbl c') \<Longrightarrow> q_key r \<notin> fst ` set batch \<Longrightarrow>
   r \<in> set (crawl_queue_tbl c) \<or> q_status r = ''queued''"
proof (induction batch arbitrary: c d e)
  case Nil
  then show ?case by simp
next
  case (Cons item rest)
  show ?case
  proof (cases "deadline_reached dl c")
    case True
    with Cons.prems show ?thesis by simp
  next
    case False
    obtain c1 ok where ci: "crawl_item up rd c item = (c1, ok)" by (cases "crawl_item up rd c item")
    with False Cons.prems
    have run: "crawl_batch up rd sl dl rest (time_sleep sl c1) (if ok then d + 1 else d)
            (if ok then e else e + 1) = (c', d', e', ret)"
      by simp
    from Cons.prems(3) have ne: "q_key r \<noteq> fst item" and nr: "q_key r \<notin> fst ` set rest" by auto
    from run Cons.prems(2) nr
    have "r \<in> set (crawl_queue_tbl (time_sleep sl c1)) \<or> q_status r = ''queued''"
      by (rule Cons.IH)
    then show ?thesis
    proof
      assume "r \<in> set (crawl_queue_tbl (time_sleep sl c1))"
      with ci have "r \<in> set (crawl_queue_tbl (fst (crawl_item up rd c item)))" by simp
      then show ?thesis using ne by (rule crawl_item_foreign_rows)
    qed simp
  qed
qed

section \<open>Flair scan: the duplicate streak ends the scan of a label\<close>

lemma upsert_link_posts [simp]: "posts_tbl (upsert_link c p u) = posts_tbl c"
  by (simp add: upsert_link_def)

lemma queue_add_posts [simp]: "posts_tbl (queue_add c k u d h m) = posts_tbl c"
  by (simp add: queue_add_def)

lemma discover_link_posts [simp]: "posts_tbl (discover_link up p d u c) = posts_tbl c"
  by (simp add: discover_link_def Let_def)

lemma fold_discover_link_posts [simp]:
  "posts_tbl (fold (discover_link up p d) us c) = posts_tbl c"
  by (induction us arbitrary: c) simp_all

lemma time_sleep_posts [simp]: "posts_tbl (time_sleep s c) = posts_tbl c"
  by (simp add: time_sleep_def)

lemma store_duplicate:
  assumes "s_id sub \<in> set (map p_id (posts_tbl c))"
  shows "snd (store_submission_and_discover up c sub d) = False"
    and "posts_tbl (fst (store_submission_and_discover up c sub d)) = posts_tbl c"
  using assms by (simp_all add: store_submission_and_discover_def insert_post_def Let_def)

lemma fold_store_sleep_posts:
  "posts_tbl (fold (\<lambda>s c. time_sleep sl (fst (store_submission_and_discover up c s 0))) ss c) = posts_tbl c
   \<or> (\<exists>s \<in> set ss. s_id s \<notin> set (map p_id (posts_tbl c)))"
proof (induction ss arbitrary: c)
  case Nil
  show ?case by simp
next
  case (Cons s ss)
  show ?case
  proof (cases "s_id s \<in> set (map p_id (posts_tbl c))")
    case True
    let ?c1 = "time_sleep sl (fst (store_submission_and_discover up c s 0))"
    from True have p: "posts_tbl ?c1 = posts_tbl c"
      by (simp add: store_duplicate)
    from Cons.IH[of ?c1] p show ?thesis by auto
  next
    case False
    then show ?thesis by auto
  qed
qed

lemma fold_store_sleep_clock:
  "clock (fold (\<lambda>s c. time_sleep sl (fst (store_submission_and_discover up c s 0))) ss c)
     = clock c + length ss * sl"
  by (induction ss arbitrary: c) (simp_all add: time_sleep_def)

lemma flair_search_loop_duplicates_state:
  assumes "subs \<noteq> []" and "dup + int (length subs) = STOP_DUP_STREAK"
    and "\<forall>s \<in> set subs. s_id s \<in> set (map p_id (posts_tbl c))"
  shows "flair_search_loop up sl None (map Inr subs @ ys) c seen ins dup
           = (fst (store_submission_and_discover up
                     (fold (\<lambda>s c. time_sleep sl (fst (store_submission_and_discover up c s 0)))
                        (butlast subs) c)
                     (last subs) 0),
              seen + int (length subs), ins, STOP_DUP_STREAK, Broke)"
  using assms
proof (induction subs arbitrary: c seen dup)
  case Nil
  then show ?case by simp
next
  case (Cons s rest)
  from Cons.prems(3) have known: "s_id s \<in> set (map p_id (posts_tbl c))" by simp
  let ?st = "store_submission_and_discover up c s 0"
  from store_duplicate[OF known, of up 0]
  have ins1: "snd ?st = False" and p1: "posts_tbl (fst ?st) = posts_tbl c"
    by simp_all
  show ?case
  proof (cases "rest = []")
    case True
    with Cons.prems(2) have "STOP_DUP_STREAK \<le> dup + 1" and "dup + 1 = STOP_DUP_STREAK" by simp_all
    with True ins1 show ?thesis
      by (simp add: deadline_reached_def split_beta Let_def)
  next
    case False
    with Cons.prems(2) have lt: "\<not> STOP_DUP_STREAK \<le> dup + 1"
      by (cases rest) simp_all
    let ?c1 = "time_sleep sl (fst ?st)"
    have step: "flair_search_loop up sl None (map Inr (s # rest) @ ys) c seen ins dup
                  = flair_search_loop up sl None (map Inr rest @ ys) ?c1 (seen + 1) ins (dup + 1)"
      using ins1 lt by (simp add: deadline_reached_def split_beta Let_def)
    have "flair_search_loop up sl None (map Inr rest @ ys) ?c1 (seen + 1) ins (dup + 1)
            = (fst (store_submission_and_discover up
                     (fold (\<lambda>s c. time_sleep sl (fst (store_submission_and_discover up c s 0)))
                        (butlast rest) ?c1)
                     (last rest) 0),
               (seen + 1) + int (length rest), ins, STOP_DUP_STREAK, Broke)"
    proof (rule Cons.IH)
      show "rest \<noteq> []" by (rule False)
      show "dup + 1 + int (length rest) = STOP_DUP_STREAK" using Cons.prems(2) by simp
      show "\<forall>s \<in> set rest. s_id s \<in> set (map p_id (posts_tbl ?c1))"
        using Cons.prems(3) p1 by simp
    qed
    with step False show ?thesis by (simp add: add.assoc)
  qed
qed

text \<open>
  C9. With no deadline, let the stream for a label start with 2500 results whose ids are
  already in the posts table, whatever follows them. The scan of that label, which starts
  with a duplicate streak of 0, then ends by the \<^verbatim>\<open>break\<close> on the streak with \<^verbatim>\<open>seen\<close> grown by
  exactly 2500 and nothing inserted. Its final state is the state reached by storing these
  2500 results one after the other, with a sleep after each but the last: it does not
  depend on the rest of the stream, so no further result is scanned. The posts table is the
  same as before and the clock has advanced by 2499 sleeps.
\<close>

theorem flair_scan_stops_at_dup_streak:
  assumes "length subs = 2500"
    and "\<forall>s \<in> set subs. s_id s \<in> set (map p_id (posts_tbl c))"
  shows "flair_search_loop urlparse sleep_s None (map Inr subs @ ys) c seen inserted_count 0
           = (fst (store_submission_and_discover urlparse
                     (fold (\<lambda>s c. time_sleep sleep_s (fst (store_submission_and_discover urlparse c s 0)))
                        (butlast subs) c)
                     (last subs) 0),
              seen + 2500, inserted_count, 2500, Broke) \<and>
         posts_tbl (fst (flair_search_loop urlparse sleep_s None (map Inr subs @ ys) c seen inserted_count 0))
           = posts_tbl c \<and>
         clock (fst (flair_search_loop urlparse sleep_s None (map Inr subs @ ys) c seen inserted_count 0))
           = clock c + 2499 * sleep_s"
proof -
  let ?mid = "fold (\<lambda>s c. time_sleep sleep_s (fst (store_submission_and_discover urlparse c s 0)))
                (butlast subs) c"
  let ?fin = "fst (store_submission_and_discover urlparse ?mid (last subs) 0)"
  from assms(1) have ne: "subs \<noteq> []" by auto
  from assms(1) have d: "0 + int (length subs) = STOP_DUP_STREAK"
    by (simp add: STOP_DUP_STREAK_def)
  from ne d assms(2)
  have run: "flair_search_loop urlparse sleep_s None (map Inr subs @ ys) c seen inserted_count 0
               = (?fin, seen + int (length subs), inserted_count, STOP_DUP_STREAK, Broke)"
    by (rule flair_search_loop_duplicates_state)
  have "\<not> (\<exists>s \<in> set (butlast subs). s_id s \<notin> set (map p_id (posts_tbl c)))"
    using assms(2) by (auto dest: in_set_butlastD)
  with fold_store_sleep_posts[of sleep_s urlparse "butlast subs" c]
  have pm: "posts_tbl ?mid = posts_tbl c" by blast
  from ne assms(2) have "s_id (last subs) \<in> set (map p_id (posts_tbl c))" by simp
  with pm have "s_id (last subs) \<in> set (map p_id (posts_tbl ?mid))" by simp
  then have "posts_tbl ?fin = posts_tbl ?mid" by (rule store_duplicate(2))
  with pm have pf: "posts_tbl ?fin = posts_tbl c" by simp
  have "clock ?fin = clock c + length (butlast subs) * sleep_s"
    by (simp add: fold_store_sleep_clock)
  with assms(1) have cf: "clock ?fin = clock c + 2499 * sleep_s" by simp
  from run pf cf assms(1) show ?thesis
    by (simp add: STOP_DUP_STREAK_def)
qed

theorem flair_scan_stops_at_dup_streak_witness:
  "length (replicate 2500 sample_submission) = 2500 \<and>
   s_id sample_submission \<in> set (map p_id (posts_tbl (sample_con\<lparr>posts_tbl := [sample_post]\<rparr>))) \<and>
   snd (flair_search_loop sample_urlparse 1 None
          (map Inr (replicate 2500 sample_submission) @ [Inl (Exn ''timeout'')])
          (sample_con\<lparr>posts_tbl := [sample_post]\<rparr>) 0 0 0) = (2500, 0, 2500, Broke) \<and>
   posts_tbl (fst (flair_search_loop sample_urlparse 1 None
          (map Inr (replicate 2500 sample_submission) @ [Inl (Exn ''timeout'')])
          (sample_con\<lparr>posts_tbl := [sample_post]\<rparr>) 0 0 0)) = [sample_post] \<and>
   clock (fst (flair_search_loop sample_urlparse 1 None
          (map Inr (replicate 2500 sample_submission) @ [Inl (Exn ''timeout'')])
          (sample_con\<lparr>posts_tbl := [sample_post]\<rparr>) 0 0 0)) = 2511"
proof -
  have len: "length (replicate 2500 sample_submission) = 2500"
    by simp
  have known: "s_id sample_submission \<in> set (map p_id (posts_tbl (sample_con\<lparr>posts_tbl := [sample_post]\<rparr>)))"
    by (simp add: sample_submission_def sample_post_def)
  then have dups: "\<forall>s \<in> set (replicate 2500 sample_submission).
                     s_id s \<in> set (map p_id (posts_tbl (sample_con\<lparr>posts_tbl := [sample_post]\<rparr>)))"
    by simp
  have ck: "clock (sample_con\<lparr>posts_tbl := [sample_post]\<rparr>) = 12"
    by (simp add: sample_con_def)
  let ?c = "sample_con\<lparr>posts_tbl := [sample_post]\<rparr>"
  let ?L = "flair_search_loop sample_urlparse 1 None
              (map Inr (replicate 2500 sample_submission) @ [Inl (Exn ''timeout'')]) ?c 0 0 0"
  note streak = flair_scan_stops_at_dup_streak
                  [OF len dups, of sample_urlparse 1 "[Inl (Exn ''timeout'')]" 0 0]
  from streak have "snd ?L = (0 + 2500, 0, 2500, Broke)"
    by (simp only: snd_conv)
  then have a: "snd ?L = (2500, 0, 2500, Broke)"
    by (simp only: add_0)
  from streak have "posts_tbl (fst ?L) = posts_tbl ?c"
    by (rule conjunct1[OF conjunct2])
  then have b: "posts_tbl (fst ?L) = [sample_post]"
    by (simp add: sample_con_def)
  from streak have "clock (fst ?L) = clock ?c + 2499 * 1"
    by (rule conjunct2[OF conjunct2])
  with ck have c: "clock (fst ?L) = 2511"
    by simp
  from len known a b c show ?thesis by (intro conjI)
qed

section \<open>Queue crawl: a failing item does not stop the batch\<close>

lemma crawl_batch_outcomes:
  assumes "crawl_batch up rd sl dl batch c d e = (c', d', e', False)"
    and "distinct (map fst batch)"
    and "fst ` set batch \<subseteq> set (map q_key (crawl_queue_tbl c))"
  shows "d' = d + int (length (filter (\<lambda>it. snd (crawl_item_try up rd c it) = None) batch)) \<and>
         e' = e + int (length (filter (\<lambda>it. snd (crawl_item_try up rd c it) \<noteq> None) batch)) \<and>
         (\<forall>it \<in> set batch. \<forall>r \<in> set (crawl_queue_tbl c'). q_key r = fst it \<longrightarrow>
            (q_status r, q_last_error r) = item_status (snd (crawl_item_try up rd c it)))"
  using assms
proof (induction batch arbitrary: c d e)
  case Nil
  then show ?case by simp
next
  case (Cons item rest)
  have nd: "\<not> deadline_reached dl c"
  proof
    assume "deadline_reached dl c"
    with Cons.prems(1) show False by simp
  qed
  obtain c1 ok where ci: "crawl_item up rd c item = (c1, ok)" by (cases "crawl_item up rd c item")
  let ?c1 = "time_sleep sl c1"
  let ?d1 = "if ok then d + 1 else d" and ?e1 = "if ok then e else e + 1"
  from nd ci Cons.prems(1)
  have run: "crawl_batch up rd sl dl rest ?c1 ?d1 ?e1 = (c', d', e', False)"
    by simp
  have keys1: "set (map q_key (crawl_queue_tbl c)) \<subseteq> set (map q_key (crawl_queue_tbl ?c1))"
    using crawl_item_keys[of c up rd item] ci by simp
  have indep: "snd (crawl_item_try up rd ?c1 it) = snd (crawl_item_try up rd c it)" for it
    by (rule crawl_item_try_state_independent)
  have ok: "ok \<longleftrightarrow> snd (crawl_item_try up rd c item) = None"
    using crawl_item_ok_iff[of up rd c item] ci by simp
  from Cons.prems(2) have dr: "distinct (map fst rest)" and nin: "fst item \<notin> fst ` set rest"
    by auto
  from Cons.prems(3) have "fst ` set rest \<subseteq> set (map q_key (crawl_queue_tbl c))"
    by simp
  with keys1 have sub: "fst ` set rest \<subseteq> set (map q_key (crawl_queue_tbl ?c1))"
    by (rule subset_trans[rotated])
  from Cons.IH[OF run dr sub]
  have ih_d: "d' = ?d1 + int (length (filter (\<lambda>it. snd (crawl_item_try up rd c it) = None) rest))"
    and ih_e: "e' = ?e1 + int (length (filter (\<lambda>it. snd (crawl_item_try up rd c it) \<noteq> None) rest))"
    and ih_r: "\<forall>it \<in> set rest. \<forall>r \<in> set (crawl_queue_tbl c'). q_key r = fst it \<longrightarrow>
            (q_status r, q_last_error r) = item_status (snd (crawl_item_try up rd c it))"
    by (simp_all add: indep)
  have own: "(q_status r, q_last_error r) = item_status (snd (crawl_item_try up rd c item))"
    if r: "r \<in> set (crawl_queue_tbl c')" and k: "q_key r = fst item" for r
  proof -
    from Cons.prems(3) have "fst item \<in> set (map q_key (crawl_queue_tbl c))" by simp
    with keys1 have "fst item \<in> set (map q_key (crawl_queue_tbl ?c1))" by (rule subsetD)
    with run have "filter (\<lambda>r. q_key r = fst item) (crawl_queue_tbl c')
                     = filter (\<lambda>r. q_key r = fst item) (crawl_queue_tbl ?c1)"
      using nin by (rule crawl_batch_other_rows)
    moreover from r k have "r \<in> set (filter (\<lambda>r. q_key r = fst item) (crawl_queue_tbl c'))"
      by simp
    ultimately have "r \<in> set (crawl_queue_tbl ?c1)" by simp
    with ci have "r \<in> set (crawl_queue_tbl (fst (crawl_item up rd c item)))" by simp
    then show ?thesis using k by (rule crawl_item_own_rows)
  qed
  from ih_d ok have "d' = d + int (length (filter (\<lambda>it. snd (crawl_item_try up rd c it) = None) (item # rest)))"
    by simp
  moreover from ih_e ok
  have "e' = e + int (length (filter (\<lambda>it. snd (crawl_item_try up rd c it) \<noteq> None) (item # rest)))"
    by simp
  moreover from ih_r own
  have "\<forall>it \<in> set (item # rest). \<forall>r \<in> set (crawl_queue_tbl c'). q_key r = fst it \<longrightarrow>
            (q_status r, q_last_error r) = item_status (snd (crawl_item_try up rd c it))"
    by simp
  ultimately show ?case by blast
qed

lemma crawl_batch_no_deadline:
  "crawl_batch up rd sl None batch c d e = (c', d', e', ret) \<Longrightarrow> \<not> ret"
  by (induction batch arbitrary: c d e) (auto simp: deadline_reached_def split: prod.splits)

text \<open>
  C3. Take a run of the loop over a popped batch (distinct keys, all in the queue table)
  that the deadline does not cut short; with no deadline that is every run. Then every item
  of the batch is processed: \<^verbatim>\<open>done\<close> grows by the number of items whose \<^verbatim>\<open>try\<close> body ends
  normally and \<^verbatim>\<open>errors\<close> by the number of items whose \<^verbatim>\<open>try\<close> body raises; the row of an item
  ends in status \<^verbatim>\<open>done\<close> with no error text in the first case and in status \<^verbatim>\<open>error\<close> with
  the first 500 characters of the message in the second; and a row that is not of the batch
  is either a row of the table before, unchanged, or a new row in status \<^verbatim>\<open>queued\<close>.
\<close>

theorem crawl_batch_error_isolation:
  assumes "crawl_batch urlparse rd sleep_s deadline_ts batch c n_done n_errors = (c', done', errors', returned)"
    and "deadline_ts = None \<or> \<not> returned"
    and "distinct (map fst batch)"
    and "fst ` set batch \<subseteq> set (map q_key (crawl_queue_tbl c))"
  shows "\<not> returned \<and>
         done' = n_done + int (length (filter (\<lambda>it. snd (crawl_item_try urlparse rd c it) = None) batch)) \<and>
         errors' = n_errors + int (length (filter (\<lambda>it. snd (crawl_item_try urlparse rd c it) \<noteq> None) batch)) \<and>
         (\<forall>it \<in> set batch.
            fst it \<in> set (map q_key (crawl_queue_tbl c')) \<and>
            (\<forall>r \<in> set (crawl_queue_tbl c'). q_key r = fst it \<longrightarrow>
               (case snd (crawl_item_try urlparse rd c it) of
                  None \<Rightarrow> q_status r = ''done'' \<and> q_last_error r = None
                | Some e \<Rightarrow> q_status r = ''error'' \<and> q_last_error r = Some (take 500 (exn_str e))))) \<and>
         (\<forall>r \<in> set (crawl_queue_tbl c'). q_key r \<notin> fst ` set batch \<longrightarrow>
            r \<in> set (crawl_queue_tbl c) \<or> q_status r = ''queued'')"
proof -
  from assms(1,2) have nr: "\<not> returned"
    by (auto dest: crawl_batch_no_deadline)
  with assms(1) have run: "crawl_batch urlparse rd sleep_s deadline_ts batch c n_done n_errors
                             = (c', done', errors', False)"
    by simp
  note out = crawl_batch_outcomes[OF run assms(3,4)]
  have keys: "set (map q_key (crawl_queue_tbl c)) \<subseteq> set (map q_key (crawl_queue_tbl c'))"
    using assms(1) by (rule crawl_batch_keys)
  have rows: "fst it \<in> set (map q_key (crawl_queue_tbl c')) \<and>
              (\<forall>r \<in> set (crawl_queue_tbl c'). q_key r = fst it \<longrightarrow>
                 (case snd (crawl_item_try urlparse rd c it) of
                    None \<Rightarrow> q_status r = ''done'' \<and> q_last_error r = None
                  | Some e \<Rightarrow> q_status r = ''error'' \<and> q_last_error r = Some (take 500 (exn_str e))))"
    if it: "it \<in> set batch" for it
  proof
    from it assms(4) have "fst it \<in> set (map q_key (crawl_queue_tbl c))" by blast
    with keys show "fst it \<in> set (map q_key (crawl_queue_tbl c'))" by (rule subsetD)
    show "\<forall>r \<in> set (crawl_queue_tbl c'). q_key r = fst it \<longrightarrow>
            (case snd (crawl_item_try urlparse rd c it) of
               None \<Rightarrow> q_status r = ''done'' \<and> q_last_error r = None
             | Some e \<Rightarrow> q_status r = ''error'' \<and> q_last_error r = Some (take 500 (exn_str e)))"
    proof (intro ballI impI)
      fix r assume "r \<in> set (crawl_queue_tbl c')" and "q_key r = fst it"
      with out it have "(q_status r, q_last_error r) = item_status (snd (crawl_item_try urlparse rd c it))"
        by blast
      then show "case snd (crawl_item_try urlparse rd c it) of
                   None \<Rightarrow> q_status r = ''done'' \<and> q_last_error r = None
                 | Some e \<Rightarrow> q_status r = ''error'' \<and> q_last_error r = Some (take 500 (exn_str e))"
        by (simp add: item_status_def split: option.splits)
    qed
  qed
  have others: "\<forall>r \<in> set (crawl_queue_tbl c'). q_key r \<notin> fst ` set batch \<longrightarrow>
                  r \<in> set (crawl_queue_tbl c) \<or> q_status r = ''queued''"
    using assms(1) by (blast dest: crawl_batch_foreign_rows)
  from nr out rows others show ?thesis by blast
qed

lemma sample_batch_keys:
  "map fst (queue_pop_batch sample_crawl_con MAX_QUEUE_BATCH) = [''aaaaa1'', ''bbbbb2'', ''ccccc3'']"
  by code_simp

lemma sample_batch_raises:
  "map (\<lambda>it. snd (crawl_item_try sample_urlparse sample_reddit sample_crawl_con it))
     (queue_pop_batch sample_crawl_con MAX_QUEUE_BATCH)
     = [None, Some (Exn ''received 404 HTTP response''), None]"
  by code_simp

lemma sample_batch_counters:
  "snd (crawl_batch sample_urlparse sample_reddit 1 None
          (queue_pop_batch sample_crawl_con MAX_QUEUE_BATCH) sample_crawl_con 0 0) = (2, 1, False)"
  by code_simp

lemma sample_batch_rows:
  "map (\<lambda>r. (q_key r, q_status r, q_last_error r))
     (crawl_queue_tbl (fst (crawl_batch sample_urlparse sample_reddit 1 None
        (queue_pop_batch sample_crawl_con MAX_QUEUE_BATCH) sample_crawl_con 0 0)))
     = [(''aaaaa1'', ''done'', None), (''bbbbb2'', ''error'', Some ''received 404 HTTP response''),
        (''ccccc3'', ''done'', None), (''def456'', ''queued'', None)]"
  by code_simp

theorem crawl_batch_error_isolation_witness:
  "distinct (map fst (queue_pop_batch sample_crawl_con MAX_QUEUE_BATCH)) \<and>
   fst ` set (queue_pop_batch sample_crawl_con MAX_QUEUE_BATCH)
     \<subseteq> set (map q_key (crawl_queue_tbl sample_crawl_con)) \<and>
   map fst (queue_pop_batch sample_crawl_con MAX_QUEUE_BATCH) = [''aaaaa1'', ''bbbbb2'', ''ccccc3''] \<and>
   map (\<lambda>it. snd (crawl_item_try sample_urlparse sample_reddit sample_crawl_con it))
     (queue_pop_batch sample_crawl_con MAX_QUEUE_BATCH)
     = [None, Some (Exn ''received 404 HTTP response''), None] \<and>
   snd (crawl_batch sample_urlparse sample_reddit 1 None
          (queue_pop_batch sample_crawl_con MAX_QUEUE_BATCH) sample_crawl_con 0 0) = (2, 1, False) \<and>
   map (\<lambda>r. (q_key r, q_status r, q_last_error r))
     (crawl_queue_tbl (fst (crawl_batch sample_urlparse sample_reddit 1 None
        (queue_pop_batch sample_crawl_con MAX_QUEUE_BATCH) sample_crawl_con 0 0)))
     = [(''aaaaa1'', ''done'', None), (''bbbbb2'', ''error'', Some ''received 404 HTTP response''),
        (''ccccc3'', ''done'', None), (''def456'', ''queued'', None)]"
proof -
  let ?batch = "queue_pop_batch sample_crawl_con MAX_QUEUE_BATCH"
  let ?run = "crawl_batch sample_urlparse sample_reddit 1 None ?batch sample_crawl_con 0 0"
  have d: "distinct (map fst ?batch)"
    by (simp add: sample_batch_keys)
  have "set (map fst ?batch) \<subseteq> set (map q_key (crawl_queue_tbl sample_crawl_con))"
    unfolding sample_batch_keys by (simp add: sample_crawl_con_def sample_item_row_def)
  then have k: "fst ` set ?batch \<subseteq> set (map q_key (crawl_queue_tbl sample_crawl_con))"
    by simp
  from sample_batch_counters have run: "?run = (fst ?run, 2, 1, False)"
    by (simp add: prod_eq_iff)
  have "\<not> False \<and>
        (2::int) = 0 + int (length (filter
          (\<lambda>it. snd (crawl_item_try sample_urlparse sample_reddit sample_crawl_con it) = None) ?batch))"
    using crawl_batch_error_isolation[OF run _ d k] by blast
  with d k sample_batch_keys sample_batch_raises sample_batch_counters sample_batch_rows
  show ?thesis by (intro conjI)
qed

section \<open>The invariant of the queue table\<close>

lemma update_run_stats_queue [simp]:
  "crawl_queue_tbl (update_run_stats c rid a b d e) = crawl_queue_tbl c"
  by (simp add: update_run_stats_def)

lemma end_run_queue [simp]: "crawl_queue_tbl (end_run c rid) = crawl_queue_tbl c"
  by (simp add: end_run_def)

lemma begin_run_queue: "begin_run c rid notes = Inr c' \<Longrightarrow> crawl_queue_tbl c' = crawl_queue_tbl c"
  by (auto simp: begin_run_def split: if_splits)

lemma queue_inv_rows:
  "queue_inv c \<longleftrightarrow>
     (\<forall>r \<in> set (crawl_queue_tbl c).
        0 \<le> q_depth r \<and> q_depth r \<le> MAX_CRAWL_DEPTH \<and> (q_is_hub r = 1 \<longrightarrow> q_depth r = 0))"
  by (simp add: queue_inv_def list_all_iff)

lemma queue_inv_same: "crawl_queue_tbl c' = crawl_queue_tbl c \<Longrightarrow> queue_inv c \<Longrightarrow> queue_inv c'"
  by (simp add: queue_inv_def)

lemma list_all_map_same:
  "list_all P xs \<Longrightarrow> (\<And>x. P x \<Longrightarrow> P (f x)) \<Longrightarrow> list_all P (map f xs)"
  by (induction xs) auto

lemma queue_inv_mark: "queue_inv c \<Longrightarrow> queue_inv (queue_mark c k s e)"
  unfolding queue_inv_def queue_mark_def by (simp, erule list_all_map_same) simp

lemma queue_inv_reset: "queue_inv c \<Longrightarrow> queue_inv (queue_reset_hubs c)"
  unfolding queue_inv_def queue_reset_hubs_def by (simp, erule list_all_map_same) simp

lemma queue_inv_appends:
  assumes "queue_inv c" and "queue_appends d c c'"
    and "crawl_queue_tbl c' \<noteq> crawl_queue_tbl c \<Longrightarrow> 0 \<le> d \<and> d \<le> MAX_CRAWL_DEPTH"
  shows "queue_inv c'"
proof -
  from assms(2) obtain new where t: "crawl_queue_tbl c' = crawl_queue_tbl c @ new"
    and f: "fresh_rows d 0 (crawl_queue_tbl c) new"
    by (auto simp: queue_appends_def)
  show ?thesis
  proof (cases "new = []")
    case True
    with t assms(1) show ?thesis by (simp add: queue_inv_def)
  next
    case False
    with t assms(3) have "0 \<le> d \<and> d \<le> MAX_CRAWL_DEPTH" by simp
    with f assms(1) t show ?thesis
      by (auto simp: queue_inv_def fresh_rows_def list_all_iff)
  qed
qed

lemma queue_inv_hub_seed: "queue_inv c \<Longrightarrow> queue_inv (queue_add c k u 0 1 m)"
  by (auto simp: queue_inv_def queue_add_def MAX_CRAWL_DEPTH_def)

lemma queue_inv_store:
  assumes "queue_inv c" and "0 \<le> d"
  shows "queue_inv (fst (store_submission_and_discover up c sub d))"
  using assms(1) store_appends
proof (rule queue_inv_appends)
  assume "crawl_queue_tbl (fst (store_submission_and_discover up c sub d)) \<noteq> crawl_queue_tbl c"
  then have "d < MAX_CRAWL_DEPTH" using store_no_add by blast
  with assms(2) show "0 \<le> d + 1 \<and> d + 1 \<le> MAX_CRAWL_DEPTH" by simp
qed

lemma queue_inv_crawl_item:
  assumes "queue_inv c" and "item \<in> item_of ` set (crawl_queue_tbl c)"
  shows "queue_inv (fst (crawl_item up rd c item))"
proof -
  from assms(2) obtain r where r: "r \<in> set (crawl_queue_tbl c)" and item: "item = item_of r"
    by auto
  from assms(1) r have inv: "0 \<le> q_depth r" "q_depth r \<le> MAX_CRAWL_DEPTH"
    "q_is_hub r = 1 \<longrightarrow> q_depth r = 0"
    by (auto simp: queue_inv_rows)
  from crawl_item_as_mark[of "q_depth r" c "q_is_hub r" up rd "q_key r" "q_url r" "q_max_comment_depth r"]
  obtain c2 s e where a: "queue_appends (q_depth r + 1) c c2"
    and g: "crawl_queue_tbl c2 \<noteq> crawl_queue_tbl c \<longrightarrow>
              q_depth r < MAX_CRAWL_DEPTH \<or> (q_is_hub r = 1 \<and> q_depth r \<le> MAX_CRAWL_DEPTH)"
    and m: "fst (crawl_item up rd c item) = queue_mark c2 (q_key r) s e"
    unfolding item item_of_def by blast
  from assms(1) a have "queue_inv c2"
  proof (rule queue_inv_appends)
    assume "crawl_queue_tbl c2 \<noteq> crawl_queue_tbl c"
    with g inv show "0 \<le> q_depth r + 1 \<and> q_depth r + 1 \<le> MAX_CRAWL_DEPTH"
      by (auto simp: MAX_CRAWL_DEPTH_def)
  qed
  then show ?thesis unfolding m by (rule queue_inv_mark)
qed

lemma reachable_queue_inv: "reachable up c \<Longrightarrow> queue_inv c"
proof (induction rule: reachable.induct)
  case (fresh t)
  show ?case by (simp add: queue_inv_def apply_schema_def)
next
  case (sleep c s)
  then show ?case by (simp add: queue_inv_def)
next
  case (reset_hubs c)
  then show ?case by (simp add: queue_inv_reset)
next
  case (flair_store c submission)
  then show ?case by (simp add: queue_inv_store)
next
  case (hub_seed c submission)
  then show ?case by (simp add: queue_inv_hub_seed)
next
  case (crawl c item rd)
  then show ?case by (simp add: queue_inv_crawl_item)
next
  case (run_begin c run_id nts c')
  then show ?case using begin_run_queue queue_inv_same by blast
next
  case (run_stats c run_id n_posts n_hubs n_done n_errors)
  then show ?case by (simp add: queue_inv_def)
next
  case (run_end c run_id)
  then show ?case by (simp add: queue_inv_def)
qed

section \<open>The program stays within the reachable states\<close>

lemma flair_search_loop_reachable:
  "reachable up c \<Longrightarrow> reachable up (fst (flair_search_loop up sl dl xs c seen ins dup))"
proof (induction xs arbitrary: c seen ins dup)
  case Nil
  then show ?case by simp
next
  case (Cons x xs)
  show ?case
  proof (cases x)
    case (Inl e)
    with Cons.prems show ?thesis by simp
  next
    case (Inr sub)
    let ?st = "store_submission_and_discover up c sub 0"
    have r1: "reachable up (fst ?st)"
      using Cons.prems by (rule reachable.flair_store)
    then have r2: "reachable up (time_sleep sl (fst ?st))"
      by (rule reachable.sleep)
    show ?thesis
      using Inr Cons.prems r1 Cons.IH[OF r2]
      by (simp add: Let_def split_beta)
  qed
qed

lemma ingest_flairs_reachable:
  "reachable up c \<Longrightarrow> reachable up (fst (ingest_flairs up rd sl dl flairs c seen ins))"
proof (induction flairs arbitrary: c seen ins)
  case Nil
  then show ?case by simp
next
  case (Cons flair rest)
  let ?q = "''flair:'' @ [CHR 0x22] @ flair @ [CHR 0x22]"
  let ?r = "flair_search_loop up sl dl (rd_search rd ?q ''new'' None) c seen ins 0"
  obtain c1 seen1 ins1 dup1 ex where r: "?r = (c1, seen1, ins1, dup1, ex)"
    by (cases ?r)
  from flair_search_loop_reachable[OF Cons.prems, of sl dl "rd_search rd ?q ''new'' None" seen ins 0] r
  have r1: "reachable up c1" by simp
  show ?case
    using Cons.prems r r1 Cons.IH[OF r1]
    by (cases ex) simp_all
qed

lemma ingest_dd_flair_posts_reachable:
  "reachable up c \<Longrightarrow> reachable up (fst (ingest_dd_flair_posts up rd c sl dl))"
  by (simp add: ingest_dd_flair_posts_def ingest_flairs_reachable)

lemma hub_search_loop_reachable:
  "reachable up c \<Longrightarrow> reachable up (fst (hub_search_loop sl dl xs c added))"
proof (induction xs arbitrary: c added)
  case Nil
  then show ?case by simp
next
  case (Cons x xs)
  show ?case
  proof (cases x)
    case (Inl e)
    with Cons.prems show ?thesis by simp
  next
    case (Inr sub)
    let ?c1 = "queue_add c (s_id sub) (''https://www.reddit.com'' @ s_permalink sub) 0 1 HUB_REPLY_DEPTH"
    have "reachable up ?c1"
      using Cons.prems by (rule reachable.hub_seed)
    then have r2: "reachable up (time_sleep sl ?c1)"
      by (rule reachable.sleep)
    show ?thesis
      using Inr Cons.prems Cons.IH[OF r2]
      by (simp add: Let_def)
  qed
qed

lemma discover_hubs_reachable:
  "reachable up c \<Longrightarrow> reachable up (fst (discover_hubs rd sl dl qs c added))"
proof (induction qs arbitrary: c added)
  case Nil
  then show ?case by simp
next
  case (Cons q rest)
  let ?r = "hub_search_loop sl dl (rd_search rd q ''relevance'' (Some 200)) c added"
  obtain c1 added1 ex where r: "?r = (c1, added1, ex)"
    by (cases ?r)
  from hub_search_loop_reachable[OF Cons.prems, of sl dl "rd_search rd q ''relevance'' (Some 200)" added] r
  have r1: "reachable up c1" by simp
  show ?case
    using Cons.prems r r1 Cons.IH[OF r1]
    by (cases ex) simp_all
qed

lemma discover_hub_posts_reachable:
  "reachable up c \<Longrightarrow> reachable up (fst (discover_hub_posts rd c sl dl))"
  by (simp add: discover_hub_posts_def discover_hubs_reachable)

lemma queue_mark_items:
  "item_of ` set (crawl_queue_tbl (queue_mark c k s e)) = item_of ` set (crawl_queue_tbl c)"
proof -
  have "map item_of (crawl_queue_tbl (queue_mark c k s e)) = map item_of (crawl_queue_tbl c)"
    by (simp add: queue_mark_def item_of_def)
  then have "set (map item_of (crawl_queue_tbl (queue_mark c k s e))) = set (map item_of (crawl_queue_tbl c))"
    by simp
  then show ?thesis by simp
qed

lemma crawl_item_items_mono:
  "item_of ` set (crawl_queue_tbl c) \<subseteq> item_of ` set (crawl_queue_tbl (fst (crawl_item up rd c item)))"
proof -
  obtain key url depth is_hub mcd where item: "item = (key, url, depth, is_hub, mcd)"
    by (cases item)
  from crawl_item_as_mark[of depth c is_hub up rd key url mcd] item
  obtain c2 s e where a: "queue_appends (depth + 1) c c2"
    and m: "fst (crawl_item up rd c item) = queue_mark c2 key s e"
    by auto
  from a have "set (crawl_queue_tbl c) \<subseteq> set (crawl_queue_tbl c2)"
    by (auto simp: queue_appends_def)
  then have "item_of ` set (crawl_queue_tbl c) \<subseteq> item_of ` set (crawl_queue_tbl c2)"
    by (rule image_mono)
  then show ?thesis unfolding m queue_mark_items .
qed

lemma queue_pop_batch_items:
  "set (queue_pop_batch c n) \<subseteq> item_of ` set (crawl_queue_tbl c)"
proof -
  have "set (queue_pop_batch c n)
          \<subseteq> set (map item_of (sort_key q_added_at_utc
                 (filter (\<lambda>r. q_status r = ''queued'') (crawl_queue_tbl c))))"
    unfolding queue_pop_batch_def by (rule set_take_subset)
  also have "\<dots> \<subseteq> item_of ` set (crawl_queue_tbl c)"
    by auto
  finally show ?thesis .
qed

lemma crawl_batch_reachable:
  "reachable up c \<Longrightarrow> set batch \<subseteq> item_of ` set (crawl_queue_tbl c) \<Longrightarrow>
   reachable up (fst (crawl_batch up rd sl dl batch c d e))"
proof (induction batch arbitrary: c d e)
  case Nil
  then show ?case by simp
next
  case (Cons item rest)
  let ?c1 = "fst (crawl_item up rd c item)"
  from Cons.prems have it: "item \<in> item_of ` set (crawl_queue_tbl c)"
    and rest: "set rest \<subseteq> item_of ` set (crawl_queue_tbl c)" by simp_all
  from Cons.prems(1) it have "reachable up ?c1"
    by (rule reachable.crawl)
  then have r2: "reachable up (time_sleep sl ?c1)"
    by (rule reachable.sleep)
  from rest crawl_item_items_mono[of c up rd item]
  have "set rest \<subseteq> item_of ` set (crawl_queue_tbl (time_sleep sl ?c1))"
    by (simp add: subset_trans)
  with r2 have "reachable up (fst (crawl_batch up rd sl dl rest (time_sleep sl ?c1) d' e'))" for d' e'
    by (rule Cons.IH)
  with Cons.prems(1) show ?case
    by (simp add: Let_def split_beta)
qed

lemma crawl_loop_reachable_aux:
  assumes "crawl_loop up0 rd0 sl0 dl0 c0 d0 e0 = Some y0"
  shows "reachable up0 c0 \<longrightarrow> reachable up0 (fst y0)"
proof (rule crawl_loop.raw_induct
         [where P = "\<lambda>up rd sl dl c d e y. reachable up c \<longrightarrow> reachable up (fst y)", OF _ assms],
       goal_cases)
  case (1 loop up rd sl dl c d e y)
  show ?case
  proof
    assume rc: "reachable up c"
    show "reachable up (fst y)"
    proof (cases "deadline_reached dl c \<or> queue_pop_batch c MAX_QUEUE_BATCH = []")
      case True
      with 1(2) rc show ?thesis by (auto simp: Let_def split: if_splits)
    next
      case False
      let ?batch = "queue_pop_batch c MAX_QUEUE_BATCH"
      obtain c1 d1 e1 ret where b: "crawl_batch up rd sl dl ?batch c d e = (c1, d1, e1, ret)"
        by (cases "crawl_batch up rd sl dl ?batch c d e")
      from rc queue_pop_batch_items have "reachable up (fst (crawl_batch up rd sl dl ?batch c d e))"
        by (rule crawl_batch_reachable)
      with b have r1: "reachable up c1" by simp
      show ?thesis
      proof (cases ret)
        case True
        with False b 1(2) r1 show ?thesis by (auto simp: Let_def)
      next
        case no: False
        with False b 1(2) have "loop up rd sl dl c1 d1 e1 = Some y" by (simp add: Let_def)
        with 1(1) r1 show ?thesis by blast
      qed
    qed
  qed
qed

lemma crawl_loop_reachable:
  "crawl_loop up rd sl dl c d e = Some y \<Longrightarrow> reachable up c \<Longrightarrow> reachable up (fst y)"
  using crawl_loop_reachable_aux by blast

lemma flush_counters_reachable: "reachable up c \<Longrightarrow> reachable up (flush_counters c rid l)"
  unfolding flush_counters_def by (rule reachable.run_stats)

lemma main_flair_phase_reachable:
  "reachable up c \<Longrightarrow> reachable up (fst (fst (main_flair_phase up rd a dl rid (c, l))))"
  using ingest_dd_flair_posts_reachable[of up c rd "a_sleep a" dl]
  by (auto simp: main_flair_phase_def Let_def flush_counters_reachable split: prod.splits sum.splits)

lemma main_hub_phase_reachable:
  "reachable up c \<Longrightarrow> reachable up (fst (fst (main_hub_phase rd a dl rid (c, l))))"
  using discover_hub_posts_reachable[of up c rd "a_sleep a" dl]
  by (auto simp: main_hub_phase_def Let_def flush_counters_reachable split: prod.splits sum.splits)

lemma main_crawl_phase_reachable:
  "main_crawl_phase up rd a dl rid (c, l) = Some (c', l') \<Longrightarrow> reachable up c \<Longrightarrow> reachable up c'"
  by (auto simp: main_crawl_phase_def crawl_queue_def Let_def flush_counters_reachable
           split: if_splits option.splits prod.splits dest: crawl_loop_reachable)

lemma main_try_reachable:
  assumes "main_try up rd a dl rid c = Some ((c', l'), x)" and "reachable up c"
  shows "reachable up c'"
proof -
  let ?c0 = "if a_recrawl_hubs a then queue_reset_hubs c else c"
  let ?l0 = "\<lparr>posts_inserted = 0, hubs_queued = 0, queue_done = 0, errors = 0\<rparr>"
  have r0: "reachable up ?c0"
    using assms(2) by (simp add: reachable.reset_hubs)
  obtain c1 l1 x1 where p1: "main_flair_phase up rd a dl rid (?c0, ?l0) = ((c1, l1), x1)"
    by (cases "main_flair_phase up rd a dl rid (?c0, ?l0)") auto
  from main_flair_phase_reachable[OF r0, of rd a dl rid ?l0] p1 have r1: "reachable up c1"
    by simp
  show ?thesis
  proof (cases x1)
    case (Some e)
    with assms(1) p1 r1 show ?thesis by (simp add: main_try_def Let_def)
  next
    case None
    obtain c2 l2 x2 where p2: "main_hub_phase rd a dl rid (c1, l1) = ((c2, l2), x2)"
      by (cases "main_hub_phase rd a dl rid (c1, l1)") auto
    from main_hub_phase_reachable[OF r1, of rd a dl rid l1] p2 have r2: "reachable up c2"
      by simp
    show ?thesis
    proof (cases x2)
      case (Some e)
      with assms(1) p1 p2 None r2 show ?thesis by (simp add: main_try_def Let_def)
    next
      case n2: None
      from assms(1) p1 p2 None n2
      obtain c3 l3 where p3: "main_crawl_phase up rd a dl rid (c2, l2) = Some (c3, l3)"
        and fin: "c' = end_run c3 rid"
        by (auto simp: main_try_def Let_def split: option.splits)
      from p3 r2 have "reachable up c3" by (rule main_crawl_phase_reachable)
      with fin show ?thesis by (simp add: reachable.run_end)
    qed
  qed
qed

lemma main_reachable:
  assumes "main up rd a rid c = Some (Inr (c', rc))" and "reachable up c"
  shows "reachable up c'"
proof -
  let ?dl = "case a_max_minutes a of None \<Rightarrow> None | Some m \<Rightarrow> Some (clock c + m * 60)"
  let ?n = "''DD Library Autopilot (BEST hub comments, time budget)''"
  from assms(1) obtain cb where b: "begin_run c rid ?n = Inr cb"
    by (cases "begin_run c rid ?n") (auto simp: main_def Let_def)
  from assms(2) b have rb: "reachable up cb" by (rule reachable.run_begin)
  from assms(1) b obtain ct lt x where t: "main_try up rd a ?dl rid cb = Some ((ct, lt), x)"
    by (auto simp: main_def Let_def split: option.splits)
  from t rb have rt: "reachable up ct" by (rule main_try_reachable)
  show ?thesis
  proof (cases x)
    case None
    with assms(1) b t rt show ?thesis by (simp add: main_def Let_def)
  next
    case (Some e)
    with assms(1) b t have "c' = end_run (flush_counters ct rid (lt\<lparr>errors := errors lt + 1\<rparr>)) rid"
      by (simp add: main_def Let_def)
    with rt show ?thesis
      by (simp add: reachable.run_end flush_counters_reachable)
  qed
qed

section \<open>Depth bound and hubs\<close>

lemma queue_mark_row_fields:
  assumes "r' \<in> set (crawl_queue_tbl (queue_mark c k s e))"
  shows "\<exists>x \<in> set (crawl_queue_tbl c).
           q_key r' = q_key x \<and> q_depth r' = q_depth x \<and> q_is_hub r' = q_is_hub x"
proof -
  from assms obtain x where x: "x \<in> set (crawl_queue_tbl c)"
    and r: "r' = (if q_key x = k
                  then x\<lparr>q_status := s, q_last_error := e, q_updated_at_utc := now_utc_iso c\<rparr> else x)"
    by (auto simp: queue_mark_def)
  from r have "q_key r' = q_key x \<and> q_depth r' = q_depth x \<and> q_is_hub r' = q_is_hub x"
    by (cases "q_key x = k") simp_all
  with x show ?thesis by blast
qed

text \<open>
  C1. In every reachable state every row of \<^verbatim>\<open>crawl_queue\<close> has a depth between 0 and
  \<^verbatim>\<open>MAX_CRAWL_DEPTH\<close>. From a source at depth \<^verbatim>\<open>MAX_CRAWL_DEPTH\<close> nothing is enqueued: storing a
  submission at that depth leaves the queue table as it was, and processing a queue row of
  that depth adds no key to the table. A run of \<^verbatim>\<open>main\<close> that starts in a reachable state ends
  in a reachable state.
\<close>

theorem queue_depth_bounded:
  assumes "reachable urlparse c"
  shows "(\<forall>r \<in> set (crawl_queue_tbl c). 0 \<le> q_depth r \<and> q_depth r \<le> MAX_CRAWL_DEPTH) \<and>
         (\<forall>sub. crawl_queue_tbl (fst (store_submission_and_discover urlparse c sub MAX_CRAWL_DEPTH))
                  = crawl_queue_tbl c) \<and>
         (\<forall>r \<in> set (crawl_queue_tbl c). \<forall>rd. q_depth r = MAX_CRAWL_DEPTH \<longrightarrow>
            map q_key (crawl_queue_tbl (fst (crawl_item urlparse rd c (item_of r))))
              = map q_key (crawl_queue_tbl c)) \<and>
         (\<forall>rd a run_id c' rc. main urlparse rd a run_id c = Some (Inr (c', rc)) \<longrightarrow>
            reachable urlparse c')"
proof -
  from assms have inv: "queue_inv c" by (rule reachable_queue_inv)
  then have a: "\<forall>r \<in> set (crawl_queue_tbl c). 0 \<le> q_depth r \<and> q_depth r \<le> MAX_CRAWL_DEPTH"
    by (simp add: queue_inv_rows)
  have b: "crawl_queue_tbl (fst (store_submission_and_discover urlparse c sub MAX_CRAWL_DEPTH))
             = crawl_queue_tbl c" for sub
    by (rule store_no_add) simp
  have c: "map q_key (crawl_queue_tbl (fst (crawl_item urlparse rd c (item_of r))))
             = map q_key (crawl_queue_tbl c)"
    if r: "r \<in> set (crawl_queue_tbl c)" and d: "q_depth r = MAX_CRAWL_DEPTH" for r rd
  proof -
    from inv r have "q_is_hub r = 1 \<longrightarrow> q_depth r = 0" by (simp add: queue_inv_rows)
    with d have nh: "q_is_hub r \<noteq> 1" by (auto simp: MAX_CRAWL_DEPTH_def)
    from crawl_item_as_mark[of "q_depth r" c "q_is_hub r" urlparse rd "q_key r" "q_url r" "q_max_comment_depth r"]
    obtain c2 s e where g: "crawl_queue_tbl c2 \<noteq> crawl_queue_tbl c \<longrightarrow>
              q_depth r < MAX_CRAWL_DEPTH \<or> (q_is_hub r = 1 \<and> q_depth r \<le> MAX_CRAWL_DEPTH)"
      and m: "fst (crawl_item urlparse rd c (item_of r)) = queue_mark c2 (q_key r) s e"
      unfolding item_of_def by blast
    from g d nh have "crawl_queue_tbl c2 = crawl_queue_tbl c" by auto
    then show ?thesis unfolding m by simp
  qed
  have d: "reachable urlparse c'" if "main urlparse rd a run_id c = Some (Inr (c', rc))" for rd a run_id c' rc
    using that assms by (rule main_reachable)
  from a b c d show ?thesis by blast
qed

text \<open>
  C10. In every reachable state every row with \<^verbatim>\<open>is_hub = 1\<close> has depth 0. Processing such a
  row in the crawl, comment expansion included, adds only rows at depth 1 that are not hubs;
  storing a submission at depth \<open>d\<close> adds only rows at depth \<open>d + 1\<close> that are not hubs; the
  only rows added with \<^verbatim>\<open>is_hub = 1\<close> are those of hub discovery, at depth 0.
\<close>

theorem hub_rows_at_depth_zero:
  assumes "reachable urlparse c"
  shows "(\<forall>r \<in> set (crawl_queue_tbl c). q_is_hub r = 1 \<longrightarrow> q_depth r = 0) \<and>
         (\<forall>r \<in> set (crawl_queue_tbl c). \<forall>rd. q_is_hub r = 1 \<longrightarrow>
            (\<forall>r' \<in> set (crawl_queue_tbl (fst (crawl_item urlparse rd c (item_of r)))).
               q_key r' \<notin> set (map q_key (crawl_queue_tbl c)) \<longrightarrow> q_depth r' = 1 \<and> q_is_hub r' = 0)) \<and>
         (\<forall>sub d. \<forall>r' \<in> set (crawl_queue_tbl (fst (store_submission_and_discover urlparse c sub d))).
            r' \<notin> set (crawl_queue_tbl c) \<longrightarrow> q_depth r' = d + 1 \<and> q_is_hub r' = 0) \<and>
         (\<forall>sub :: submission.
            \<forall>r' \<in> set (crawl_queue_tbl (queue_add c (s_id sub) (''https://www.reddit.com'' @ s_permalink sub)
                                           0 1 HUB_REPLY_DEPTH)).
            r' \<notin> set (crawl_queue_tbl c) \<longrightarrow> q_depth r' = 0 \<and> q_is_hub r' = 1)"
proof -
  from assms have inv: "queue_inv c" by (rule reachable_queue_inv)
  then have a: "\<forall>r \<in> set (crawl_queue_tbl c). q_is_hub r = 1 \<longrightarrow> q_depth r = 0"
    by (simp add: queue_inv_rows)
  have b: "q_depth r' = 1 \<and> q_is_hub r' = 0"
    if r: "r \<in> set (crawl_queue_tbl c)" and h: "q_is_hub r = 1"
      and r': "r' \<in> set (crawl_queue_tbl (fst (crawl_item urlparse rd c (item_of r))))"
      and new: "q_key r' \<notin> set (map q_key (crawl_queue_tbl c))" for r rd r'
  proof -
    from a r h have d0: "q_depth r = 0" by simp
    from crawl_item_as_mark[of "q_depth r" c "q_is_hub r" urlparse rd "q_key r" "q_url r" "q_max_comment_depth r"]
    obtain c2 s e where ap: "queue_appends (q_depth r + 1) c c2"
      and m: "fst (crawl_item urlparse rd c (item_of r)) = queue_mark c2 (q_key r) s e"
      unfolding item_of_def by blast
    from r' obtain x where x: "x \<in> set (crawl_queue_tbl c2)"
      and f: "q_key r' = q_key x" "q_depth r' = q_depth x" "q_is_hub r' = q_is_hub x"
      unfolding m by (blast dest: queue_mark_row_fields)
    from new f(1) have "x \<notin> set (crawl_queue_tbl c)" by auto
    with queue_appends_new_rows[OF ap x] d0 have "q_depth x = 1 \<and> q_is_hub x = 0" by simp
    with f show ?thesis by simp
  qed
  have c: "q_depth r' = d + 1 \<and> q_is_hub r' = 0"
    if "r' \<in> set (crawl_queue_tbl (fst (store_submission_and_discover urlparse c sub d)))"
      and "r' \<notin> set (crawl_queue_tbl c)" for sub d r'
    using queue_appends_new_rows[OF store_appends that(1)] that(2) by simp
  have d: "q_depth r' = 0 \<and> q_is_hub r' = 1"
    if "r' \<in> set (crawl_queue_tbl (queue_add c (s_id sub) (''https://www.reddit.com'' @ s_permalink sub)
                                       0 1 HUB_REPLY_DEPTH))"
      and "r' \<notin> set (crawl_queue_tbl c)" for sub :: submission and r'
    using that by (auto simp: queue_add_def split: if_splits)
  from a b c d show ?thesis by blast
qed

lemma sample_flair_store_rows:
  "map (\<lambda>r. (q_key r, q_depth r, q_is_hub r))
     (crawl_queue_tbl (fst (store_submission_and_discover sample_urlparse (apply_schema 0)
                              sample_hub_submission 0)))
     = [(''def456'', 1, 0)]"
  by code_simp

theorem queue_depth_bounded_witness:
  "reachable sample_urlparse
     (fst (store_submission_and_discover sample_urlparse (apply_schema 0) sample_hub_submission 0)) \<and>
   map (\<lambda>r. (q_key r, q_depth r, q_is_hub r))
     (crawl_queue_tbl (fst (store_submission_and_discover sample_urlparse (apply_schema 0)
                              sample_hub_submission 0)))
     = [(''def456'', 1, 0)] \<and>
   list_all (\<lambda>r. 0 \<le> q_depth r \<and> q_depth r \<le> MAX_CRAWL_DEPTH)
     (crawl_queue_tbl (fst (store_submission_and_discover sample_urlparse (apply_schema 0)
                              sample_hub_submission 0))) \<and>
   crawl_queue_tbl
     (fst (store_submission_and_discover sample_urlparse
             (fst (store_submission_and_discover sample_urlparse (apply_schema 0) sample_hub_submission 0))
             sample_submission MAX_CRAWL_DEPTH))
     = crawl_queue_tbl (fst (store_submission_and_discover sample_urlparse (apply_schema 0)
                               sample_hub_submission 0))"
proof -
  let ?c = "fst (store_submission_and_discover sample_urlparse (apply_schema 0) sample_hub_submission 0)"
  have r: "reachable sample_urlparse ?c"
    by (intro reachable.flair_store reachable.fresh)
  note bound = queue_depth_bounded [OF r]
  from bound[THEN conjunct1]
  have "list_all (\<lambda>r. 0 \<le> q_depth r \<and> q_depth r \<le> MAX_CRAWL_DEPTH) (crawl_queue_tbl ?c)"
    unfolding list_all_iff .
  moreover from bound[THEN conjunct2, THEN conjunct1]
  have "crawl_queue_tbl (fst (store_submission_and_discover sample_urlparse ?c sample_submission MAX_CRAWL_DEPTH))
          = crawl_queue_tbl ?c"
    by (rule spec)
  ultimately show ?thesis using r sample_flair_store_rows by (intro conjI)
qed

lemma sample_seeded_rows:
  "map (\<lambda>r. (q_key r, q_depth r, q_is_hub r)) (crawl_queue_tbl sample_seeded_con) = [(''abc123'', 0, 1)]"
  by code_simp

lemma sample_seeded_hub_row:
  "hd (crawl_queue_tbl sample_seeded_con) \<in> set (crawl_queue_tbl sample_seeded_con) \<and>
   q_is_hub (hd (crawl_queue_tbl sample_seeded_con)) = 1"
  by (simp add: sample_seeded_con_def queue_add_def apply_schema_def)

theorem hub_rows_at_depth_zero_witness:
  "reachable sample_urlparse sample_seeded_con \<and>
   map (\<lambda>r. (q_key r, q_depth r, q_is_hub r)) (crawl_queue_tbl sample_seeded_con) = [(''abc123'', 0, 1)] \<and>
   list_all (\<lambda>r. q_is_hub r \<noteq> 1 \<or> q_depth r = 0) (crawl_queue_tbl sample_seeded_con) \<and>
   list_all (\<lambda>r'. q_key r' \<in> set (map q_key (crawl_queue_tbl sample_seeded_con)) \<or>
                   (q_depth r' = 1 \<and> q_is_hub r' = 0))
     (crawl_queue_tbl (fst (crawl_item sample_urlparse sample_hub_reddit sample_seeded_con
                              (item_of (hd (crawl_queue_tbl sample_seeded_con))))))"
proof -
  have r: "reachable sample_urlparse sample_seeded_con"
    unfolding sample_seeded_con_def by (intro reachable.hub_seed reachable.fresh)
  note hubs = hub_rows_at_depth_zero [OF r]
  from hubs[THEN conjunct1]
  have a: "list_all (\<lambda>r. q_is_hub r \<noteq> 1 \<or> q_depth r = 0) (crawl_queue_tbl sample_seeded_con)"
    unfolding list_all_iff by blast
  from hubs[THEN conjunct2, THEN conjunct1] sample_seeded_hub_row
  have "\<forall>r' \<in> set (crawl_queue_tbl (fst (crawl_item sample_urlparse sample_hub_reddit sample_seeded_con
                              (item_of (hd (crawl_queue_tbl sample_seeded_con)))))).
          q_key r' \<notin> set (map q_key (crawl_queue_tbl sample_seeded_con)) \<longrightarrow>
          q_depth r' = 1 \<and> q_is_hub r' = 0"
    by blast
  then have b: "list_all (\<lambda>r'. q_key r' \<in> set (map q_key (crawl_queue_tbl sample_seeded_con)) \<or>
                   (q_depth r' = 1 \<and> q_is_hub r' = 0))
     (crawl_queue_tbl (fst (crawl_item sample_urlparse sample_hub_reddit sample_seeded_con
                              (item_of (hd (crawl_queue_tbl sample_seeded_con))))))"
    unfolding list_all_iff by blast
  from r sample_seeded_rows a b show ?thesis by (intro conjI)
qed

end
